theory Spec2Isabelle
  imports Main "HOL-Library.Log_Nat" "HOL-Library.Multiset"
begin

chapter \<open>The algorithm modules of the DSA learning hub\<close>

text \<open>
  Each module of the repository is a React component that animates one textbook
  algorithm with timers.  The embedding below keeps the algorithmic content of every
  handler: component state becomes a record or explicit arguments, a timer-driven loop
  becomes a recursive function whose argument is the state the next tick sees, and a
  state setter becomes an update of the returned state.  The pacing delays carry no
  meaning and are dropped.  Array indices and counters that only grow from zero are
  \<open>nat\<close>; a dataset is the list of the integers that were entered (\<open>int\<close>).
  Where the code does arithmetic on dataset values (the sliding-window sums) the model
  computes on doubles: \<open>toNumber\<close> gives the double held for an integer and
  \<open>numAdd\<close>, \<open>numSub\<close> round every result.
\<close>

section \<open>Definitions\<close>

subsection \<open>BinarySearchModule.tsx: \<open>runBinarySearch\<close>\<close>

text \<open>
  The module searches the fixed 16-element array held in \<open>sortedArray\<close>.  The
  local variables \<open>l\<close>, \<open>h\<close> and \<open>stepCount\<close> of \<open>runBinarySearch\<close>
  are the arguments of \<open>search\<close>; \<open>h\<close> may become \<open>-1\<close>, so the bounds are
  integers.  Every call of \<open>setMid\<close>, \<open>setLow\<close>, \<open>setHigh\<close> appends the
  displayed values to the list \<open>shown\<close>.
\<close>

datatype outcome = Found int nat | NotFound nat

record display =
  low :: int
  high :: int
  mid :: "int option"

definition sortedArray :: "int list" where
  "sortedArray = [10, 25, 38, 45, 52, 67, 78, 89, 95, 110, 125, 140, 155, 170, 185, 200]"

text \<open>\<open>sortedArray[m]\<close>: reading outside the array yields \<open>undefined\<close> (\<open>None\<close>).\<close>

definition arrGet :: "int list \<Rightarrow> int \<Rightarrow> int option" where
  "arrGet arr i = (if 0 \<le> i \<and> i < int (length arr) then Some (arr ! nat i) else None)"

text \<open>\<open>sortedArray[m] === target\<close> and \<open>sortedArray[m] < target\<close>; both are false
  on \<open>undefined\<close>.\<close>

definition strictEq :: "int option \<Rightarrow> int \<Rightarrow> bool" where
  "strictEq v t = (v = Some t)"

definition lessThanJs :: "int option \<Rightarrow> int \<Rightarrow> bool" where
  "lessThanJs v t = (case v of None \<Rightarrow> False | Some x \<Rightarrow> x < t)"

text \<open>\<open>l + Math.floor((h - l) / 2)\<close>.\<close>

definition midpoint :: "int \<Rightarrow> int \<Rightarrow> int" where
  "midpoint l h = l + (h - l) div 2"

function search :: "int list \<Rightarrow> int \<Rightarrow> int \<Rightarrow> int \<Rightarrow> nat \<Rightarrow> display list \<Rightarrow> outcome \<times> display list" where
  "search arr target l h stepCount shown =
     (if l > h then (NotFound stepCount, shown)
      else if strictEq (arrGet arr (midpoint l h)) target
        then (Found (midpoint l h) (stepCount + 1),
              shown @ [\<lparr>low = l, high = h, mid = Some (midpoint l h)\<rparr>])
      else if lessThanJs (arrGet arr (midpoint l h)) target
        then search arr target (midpoint l h + 1) h (stepCount + 1)
               (shown @ [\<lparr>low = l, high = h, mid = Some (midpoint l h)\<rparr>])
      else search arr target l (midpoint l h - 1) (stepCount + 1)
               (shown @ [\<lparr>low = l, high = h, mid = Some (midpoint l h)\<rparr>]))"
  by pat_completeness auto
termination
  by (relation "measure (\<lambda>(arr, target, l, h, stepCount, shown). nat (h - l + 1))")
     (auto simp: midpoint_def)

declare search.simps [simp del]

text \<open>\<open>runBinarySearch\<close> first shows \<open>low = 0\<close>, \<open>high = length - 1\<close>,
  \<open>mid = null\<close>, then starts \<open>search\<close> with \<open>l = 0\<close>, \<open>h = length - 1\<close>.\<close>

definition runBinarySearch :: "int list \<Rightarrow> int \<Rightarrow> outcome \<times> display list" where
  "runBinarySearch arr target =
     search arr target 0 (int (length arr) - 1) 0
       [\<lparr>low = 0, high = int (length arr) - 1, mid = None\<rparr>]"

definition stepsOf :: "outcome \<Rightarrow> nat" where
  "stepsOf r = (case r of Found m k \<Rightarrow> k | NotFound k \<Rightarrow> k)"

subsection \<open>Free-text numeric entry: \<open>split\<close>, \<open>trim\<close>, \<open>parseInt\<close>\<close>

text \<open>
  Both \<open>handleParse\<close> handlers evaluate
  \<open>inputStr.split(',').map(s => parseInt(s.trim())).filter(n => !isNaN(n))\<close>.
  A string is a list of code units below 256.  \<open>NaN\<close> is \<open>None\<close>.
\<close>

text \<open>\<open>str.split(',')\<close>: the empty string yields one empty token.\<close>

fun splitComma :: "string \<Rightarrow> string list" where
  "splitComma [] = [[]]"
| "splitComma (c # cs) =
     (if c = CHR '','' then [] # splitComma cs
      else (case splitComma cs of [] \<Rightarrow> [[c]] | t # ts \<Rightarrow> (c # t) # ts))"

text \<open>White space removed by \<open>trim\<close> and skipped by \<open>parseInt\<close>: tab, line feed,
  vertical tab, form feed, carriage return, space, no-break space.\<close>

definition isWhiteSpace :: "char \<Rightarrow> bool" where
  "isWhiteSpace c = (of_char c \<in> {9, 10, 11, 12, 13, 32, 160 :: nat})"

definition trim :: "string \<Rightarrow> string" where
  "trim s = rev (dropWhile isWhiteSpace (rev (dropWhile isWhiteSpace s)))"

text \<open>The value of a digit in the given radix: \<open>0-9\<close>, then \<open>a-z\<close> or \<open>A-Z\<close> from 10.\<close>

definition digitOf :: "nat \<Rightarrow> char \<Rightarrow> nat option" where
  "digitOf radix c =
     (let n = (of_char c :: nat);
          v = (if 48 \<le> n \<and> n \<le> 57 then Some (n - 48)
               else if 97 \<le> n \<and> n \<le> 122 then Some (n - 87)
               else if 65 \<le> n \<and> n \<le> 90 then Some (n - 55)
               else None)
      in case v of None \<Rightarrow> None | Some d \<Rightarrow> if d < radix then Some d else None)"

text \<open>
  \<open>parseInt(string)\<close> with no radix: skip leading white space, read an optional sign,
  switch to radix 16 on a \<open>0x\<close> or \<open>0X\<close> prefix, and convert the longest prefix
  of digits; the result is \<open>NaN\<close> when that prefix is empty.  The result here is the
  integer that the digits denote; the program holds the double nearest to it, which is
  the same integer up to magnitude \<open>2^53\<close> (see \<open>toNumber\<close> below).
\<close>

definition parseInt :: "string \<Rightarrow> int option" where
  "parseInt str =
     (let s = dropWhile isWhiteSpace str;
          neg = (take 1 s = ''-'');
          s1 = (if take 1 s = ''+'' \<or> take 1 s = ''-'' then drop 1 s else s);
          hex = (take 2 s1 = ''0x'' \<or> take 2 s1 = ''0X'');
          radix = (if hex then 16 else 10);
          s2 = (if hex then drop 2 s1 else s1);
          z = takeWhile (\<lambda>c. digitOf radix c \<noteq> None) s2
      in if z = [] then None
         else Some ((if neg then - 1 else 1) *
                    int (foldl (\<lambda>acc c. acc * radix + the (digitOf radix c)) 0 z)))"

definition parseNumbers :: "string \<Rightarrow> int list" where
  "parseNumbers inputStr =
     map the (filter (\<lambda>n. n \<noteq> None) (map (\<lambda>s. parseInt (trim s)) (splitComma inputStr)))"

subsection \<open>JavaScript numbers in arithmetic\<close>

text \<open>
  The sliding-window module adds and subtracts the entries of its dataset, and
  JavaScript does that on IEEE 754 doubles.  The dataset is kept as the list of integers
  that were typed; \<open>toNumber\<close> gives the double that the program holds for an integer:
  the integer itself up to magnitude \<open>2^53\<close>, beyond that the nearest multiple of the
  spacing \<open>2^e\<close> of doubles at that magnitude (53 significant bits, ties to the even
  significand), and an infinity from \<open>2^1024\<close> on.  Sums and differences of doubles
  are the exact result rounded the same way.  The two zeros are not told apart.
\<close>

datatype number = Finite int | PosInfinity | NegInfinity | NaN

text \<open>The number of binary digits of a positive integer.\<close>

function bitLength :: "int \<Rightarrow> nat" where
  "bitLength a = (if a \<le> 0 then 0 else Suc (bitLength (a div 2)))"
  by pat_completeness auto
termination
  by (relation "measure nat") auto

declare bitLength.simps [simp del]

definition toNumber :: "int \<Rightarrow> number" where
  "toNumber x =
     (if \<bar>x\<bar> \<le> 2 ^ 53 then Finite x
      else
        (let u = (2::int) ^ (bitLength \<bar>x\<bar> - 53);
             q = \<bar>x\<bar> div u;
             r = \<bar>x\<bar> mod u;
             q' = (if 2 * r > u \<or> (2 * r = u \<and> odd q) then q + 1 else q)
         in if q' * u \<ge> 2 ^ 1024 then (if x > 0 then PosInfinity else NegInfinity)
            else Finite (sgn x * (q' * u))))"

text \<open>\<open>a + b\<close>, \<open>a - b\<close> and \<open>a > t\<close> on numbers.\<close>

fun numAdd :: "number \<Rightarrow> number \<Rightarrow> number" where
  "numAdd (Finite a) (Finite b) = toNumber (a + b)"
| "numAdd NaN b = NaN"
| "numAdd a NaN = NaN"
| "numAdd PosInfinity NegInfinity = NaN"
| "numAdd NegInfinity PosInfinity = NaN"
| "numAdd PosInfinity b = PosInfinity"
| "numAdd NegInfinity b = NegInfinity"
| "numAdd a PosInfinity = PosInfinity"
| "numAdd a NegInfinity = NegInfinity"

fun numNeg :: "number \<Rightarrow> number" where
  "numNeg (Finite a) = Finite (- a)"
| "numNeg PosInfinity = NegInfinity"
| "numNeg NegInfinity = PosInfinity"
| "numNeg NaN = NaN"

definition numSub :: "number \<Rightarrow> number \<Rightarrow> number" where
  "numSub a b = numAdd a (numNeg b)"

fun numGreater :: "number \<Rightarrow> int \<Rightarrow> bool" where
  "numGreater (Finite a) t = (a > t)"
| "numGreater PosInfinity t = True"
| "numGreater NegInfinity t = False"
| "numGreater NaN t = False"

subsection \<open>SlidingWindowModule.tsx\<close>

definition WINDOW_SIZE :: nat where
  "WINDOW_SIZE = 3"

definition THRESHOLD :: int where
  "THRESHOLD = 150"

text \<open>The component state that the handlers and the animation loop read and write
  (the execution log and the highlight flag are display only and left out).\<close>

record sw_state =
  sw_inputStr :: string
  sw_data :: "int list"
  sw_isPlaying :: bool
  sw_pythonComplete :: bool
  windowStart :: nat
  currentSum :: number
  alertWindow :: "nat option"
  sw_snowflakeTriggered :: bool
  processingRow :: "nat option"

definition sw_reset :: "sw_state \<Rightarrow> sw_state" where
  "sw_reset st = st\<lparr>sw_pythonComplete := False, sw_isPlaying := False, windowStart := 0,
                    currentSum := Finite 0, alertWindow := None, sw_snowflakeTriggered := False,
                    processingRow := None\<rparr>"

text \<open>\<open>handleParse\<close> returns the new state and the text of the blocking alert, if
  one is raised.  Nothing in the \<open>try\<close> block throws, so the \<open>catch\<close> branch is
  never taken.\<close>

definition sw_handleParse :: "sw_state \<Rightarrow> sw_state \<times> string option" where
  "sw_handleParse st =
     (let arr = parseNumbers (sw_inputStr st)
      in if length arr = 0 then (st, Some ''Please enter valid numbers'')
         else (sw_reset (st\<lparr>sw_data := arr\<rparr>), None))"

text \<open>
  One tick of the animation interval.  The callback reads \<open>data\<close> and
  \<open>currentSum\<close> from the render that installed it; the effect is re-installed whenever
  either changes, so a tick always sees the current values.  The reads \<open>data[i]\<close> are
  guarded by \<open>windowEnd < data.length\<close>.  The first window is summed from 0 by the
  \<open>for\<close> loop; later windows evaluate \<open>currentSum - leavingVal + enteringVal\<close>
  from left to right.
\<close>

definition sw_tick :: "sw_state \<Rightarrow> sw_state" where
  "sw_tick st =
     (let prev = windowStart st;
          windowEnd = prev + WINDOW_SIZE - 1
      in if windowEnd \<ge> length (sw_data st)
         then st\<lparr>sw_isPlaying := False, sw_pythonComplete := True\<rparr>
         else
           (let sum = (if prev = 0
                       then foldl (\<lambda>s i. numAdd s (toNumber (sw_data st ! i))) (Finite 0)
                              [prev ..< windowEnd + 1]
                       else numAdd (numSub (currentSum st) (toNumber (sw_data st ! (prev - 1))))
                              (toNumber (sw_data st ! windowEnd)))
            in st\<lparr>currentSum := sum,
                  alertWindow := (if numGreater sum THRESHOLD then Some prev else alertWindow st),
                  windowStart := prev + 1\<rparr>))"

text \<open>The states shown after each tick while the animation plays.\<close>

function sw_play :: "sw_state \<Rightarrow> sw_state list" where
  "sw_play st =
     (if sw_isPlaying st \<and> \<not> sw_pythonComplete st
      then sw_tick st # sw_play (sw_tick st) else [])"
  by pat_completeness auto
termination
  by (relation "measure (\<lambda>st. (if sw_isPlaying st \<and> \<not> sw_pythonComplete st then 1 else 0) +
                  (length (sw_data st) + WINDOW_SIZE - windowStart st))")
     (auto simp: sw_tick_def Let_def WINDOW_SIZE_def)

declare sw_play.simps [simp del]

text \<open>The state after \<open>reset\<close> on the dataset \<open>d\<close>, with the Play button pressed.\<close>

definition sw_start :: "int list \<Rightarrow> sw_state" where
  "sw_start d = \<lparr>sw_inputStr = [], sw_data = d, sw_isPlaying = True, sw_pythonComplete = False,
                 windowStart = 0, currentSum = Finite 0, alertWindow = None,
                 sw_snowflakeTriggered = False, processingRow = None\<rparr>"

text \<open>\<open>data.slice(a, b)\<close> for non-negative \<open>a\<close> and \<open>b\<close>, and the table cell
  \<open>windowSum\<close> of row \<open>idx\<close> in the Snowflake view:
  \<open>data.slice(idx - WINDOW_SIZE + 1, idx + 1).reduce((a, b) => a + b, 0)\<close>.\<close>

definition sliceJs :: "'a list \<Rightarrow> nat \<Rightarrow> nat \<Rightarrow> 'a list" where
  "sliceJs xs a b = take (b - a) (drop a xs)"

definition windowSum :: "int list \<Rightarrow> nat \<Rightarrow> number option" where
  "windowSum d idx =
     (if idx < WINDOW_SIZE - 1 then None
      else Some (foldl (\<lambda>a b. numAdd a (toNumber b)) (Finite 0)
                   (sliceJs d (idx + 1 - WINDOW_SIZE) (idx + 1))))"

text \<open>The exact sum of the three cells of the window that starts at \<open>p\<close>.\<close>

definition win3 :: "int list \<Rightarrow> nat \<Rightarrow> int" where
  "win3 d p = d ! p + d ! (p + 1) + d ! (p + 2)"

text \<open>Every entry has magnitude at most \<open>2^51\<close>, so that no sum or difference
  formed by the window loop exceeds \<open>2^53\<close>.\<close>

definition bounded51 :: "int list \<Rightarrow> bool" where
  "bounded51 d = list_all (\<lambda>x. \<bar>x\<bar> \<le> 2 ^ 51) d"

subsection \<open>TwoPointersModule.tsx\<close>

definition SAMPLE_DATA :: "int list" where
  "SAMPLE_DATA = [1001, 1001, 1002, 1003, 1003, 1003, 1004, 1005, 1005]"

text \<open>
  \<open>processedArray\<close> is a JavaScript array that may contain holes; a cell is
  \<open>Some v\<close> or empty (\<open>None\<close>, read as \<open>undefined\<close>).  Reading past the end
  gives \<open>undefined\<close>; writing past the end extends the array with holes.
\<close>

record tp_state =
  tp_inputStr :: string
  tp_data :: "int list"
  tp_isPlaying :: bool
  tp_pythonComplete :: bool
  readPointer :: nat
  writePointer :: nat
  processedArray :: "int option list"
  tp_snowflakeTriggered :: bool
  lagComparison :: "nat option"

definition cellRead :: "int option list \<Rightarrow> nat \<Rightarrow> int option" where
  "cellRead arr i = (if i < length arr then arr ! i else None)"

definition cellWrite :: "int option list \<Rightarrow> nat \<Rightarrow> int \<Rightarrow> int option list" where
  "cellWrite arr i v =
     (if i < length arr then arr[i := Some v]
      else arr @ replicate (i - length arr) None @ [Some v])"

definition tp_reset :: "tp_state \<Rightarrow> tp_state" where
  "tp_reset st = st\<lparr>tp_pythonComplete := False, tp_isPlaying := False, readPointer := 1,
                    writePointer := 1, processedArray := [], tp_snowflakeTriggered := False,
                    lagComparison := None\<rparr>"

text \<open>The effect that runs when \<open>data\<close> changes:
  \<open>[data[0], ...Array(data.length - 1).fill(0)]\<close>, skipped for an empty dataset.\<close>

definition initProcessed :: "tp_state \<Rightarrow> tp_state" where
  "initProcessed st =
     (if length (tp_data st) > 0
      then st\<lparr>processedArray := Some (tp_data st ! 0) # replicate (length (tp_data st) - 1) (Some 0)\<rparr>
      else st)"

text \<open>\<open>[...arr].sort((a, b) => a - b)\<close>: the ascending numeric sort.\<close>

definition sortAscending :: "int list \<Rightarrow> int list" where
  "sortAscending arr = sort arr"

text \<open>\<open>handleParse\<close> stores the sorted list and resets; the changed \<open>data\<close> then
  triggers the initialising effect.\<close>

definition tp_handleParse :: "tp_state \<Rightarrow> tp_state \<times> string option" where
  "tp_handleParse st =
     (let arr = parseNumbers (tp_inputStr st)
      in if length arr = 0 then (st, Some ''Please enter valid numbers'')
         else (initProcessed (tp_reset (st\<lparr>tp_data := sortAscending arr\<rparr>)), None))"

text \<open>
  One tick of the deduplication interval.  The callback reads \<open>data\<close>,
  \<open>writePointer\<close> and \<open>processedArray\<close> from the render that installed it; the
  effect is re-installed whenever one of them changes, so a tick sees the current
  values.  \<open>data[prev]\<close> is guarded by \<open>prev < data.length\<close>; \<open>writePointer\<close>
  starts at 1 and never decreases, so \<open>writePointer - 1\<close> is a valid natural number.
\<close>

definition tp_tick :: "tp_state \<Rightarrow> tp_state" where
  "tp_tick st =
     (let prev = readPointer st
      in if prev \<ge> length (tp_data st)
         then st\<lparr>tp_isPlaying := False, tp_pythonComplete := True\<rparr>
         else
           (let currentVal = tp_data st ! prev;
                lastUniqueVal = cellRead (processedArray st) (writePointer st - 1)
            in if Some currentVal \<noteq> lastUniqueVal
               then st\<lparr>processedArray := cellWrite (processedArray st) (writePointer st) currentVal,
                       writePointer := writePointer st + 1,
                       readPointer := prev + 1\<rparr>
               else st\<lparr>readPointer := prev + 1\<rparr>))"

function tp_play :: "tp_state \<Rightarrow> tp_state" where
  "tp_play st =
     (if tp_isPlaying st \<and> \<not> tp_pythonComplete st then tp_play (tp_tick st) else st)"
  by pat_completeness auto
termination
  by (relation "measure (\<lambda>st. (if tp_isPlaying st \<and> \<not> tp_pythonComplete st then 1 else 0) +
                  (length (tp_data st) - readPointer st))")
     (auto simp: tp_tick_def Let_def)

declare tp_play.simps [simp del]

text \<open>The state once dataset \<open>d\<close> is stored (pointers at 1, the initialising effect
  run), with the Play button pressed.\<close>

definition tp_start :: "int list \<Rightarrow> tp_state" where
  "tp_start d =
     (initProcessed \<lparr>tp_inputStr = [], tp_data = d, tp_isPlaying = False,
                     tp_pythonComplete = False, readPointer = 1, writePointer = 1,
                     processedArray = [], tp_snowflakeTriggered = False,
                     lagComparison = None\<rparr>) \<lparr>tp_isPlaying := True\<rparr>"

text \<open>The Play/Pause button: \<open>isPlaying ? setIsPlaying(false) : setIsPlaying(true)\<close>,
  disabled once \<open>pythonComplete\<close> is set.  The Reset button calls \<open>reset\<close>, that is
  \<open>tp_reset\<close>; it leaves \<open>data\<close> as it is, so the initialising effect does not
  run after it.\<close>

definition tp_clickPlay :: "tp_state \<Rightarrow> tp_state" where
  "tp_clickPlay st =
     (if tp_pythonComplete st then st else st\<lparr>tp_isPlaying := \<not> tp_isPlaying st\<rparr>)"

text \<open>The distinct values of a list in the order of their first occurrence.\<close>

fun distinctValues :: "int list \<Rightarrow> int list" where
  "distinctValues [] = []"
| "distinctValues (x # xs) = x # distinctValues (removeAll x xs)"

subsection \<open>HeapModule.tsx\<close>

datatype priority = Critical | High | Low

fun PRIORITY_VALUES :: "priority \<Rightarrow> nat" where
  "PRIORITY_VALUES Critical = 3"
| "PRIORITY_VALUES High = 2"
| "PRIORITY_VALUES Low = 1"

record job =
  jobId :: nat
  name :: string
  priority :: priority
  priorityValue :: nat

record heap_state =
  heap :: "job list"
  hp_nextJobId :: nat
  bubblingIndex :: "nat option"

text \<open>The decimal digits of a number, for the template string \<open>Job-${nextJobId}\<close>.\<close>

function decimal :: "nat \<Rightarrow> string" where
  "decimal n = (if n < 10 then [char_of (48 + n)] else decimal (n div 10) @ [char_of (48 + n mod 10)])"
  by pat_completeness auto
termination
  by (relation "measure (\<lambda>n. n)") auto

declare decimal.simps [simp del]

text \<open>\<open>Math.floor((idx - 1) / 2)\<close> for \<open>idx > 0\<close>.\<close>

definition parentIdx :: "nat \<Rightarrow> nat" where
  "parentIdx idx = (idx - 1) div 2"

text \<open>
  The \<open>bubbleUp\<close> closure of \<open>addJob\<close>, run to completion.  It is started at
  \<open>idx = newHeap.length - 1\<close> and only moves to parents, so both reads are inside the
  array.  The destructuring assignment swaps the two cells.
\<close>

function bubbleUp :: "job list \<Rightarrow> nat \<Rightarrow> job list" where
  "bubbleUp newHeap idx =
     (if idx = 0 then newHeap
      else if priorityValue (newHeap ! idx) > priorityValue (newHeap ! parentIdx idx)
        then bubbleUp (newHeap[idx := newHeap ! parentIdx idx, parentIdx idx := newHeap ! idx])
               (parentIdx idx)
      else newHeap)"
  by pat_completeness auto
termination
  by (relation "measure (\<lambda>(newHeap, idx). idx)") (auto simp: parentIdx_def)

declare bubbleUp.simps [simp del]

definition hp_addJob :: "heap_state \<Rightarrow> priority \<Rightarrow> heap_state" where
  "hp_addJob st p =
     (let j = \<lparr>jobId = hp_nextJobId st, name = ''Job-'' @ decimal (hp_nextJobId st),
                priority = p, priorityValue = PRIORITY_VALUES p\<rparr>;
          newHeap = heap st @ [j]
      in st\<lparr>heap := bubbleUp newHeap (length newHeap - 1),
            hp_nextJobId := hp_nextJobId st + 1,
            bubblingIndex := None\<rparr>)"

text \<open>\<open>popJob\<close>: copy the last cell over the root and drop the last cell; the source
  leaves the sift-down out.\<close>

definition popJob :: "heap_state \<Rightarrow> heap_state" where
  "popJob st =
     (if length (heap st) = 0 then st
      else if length (heap st) = 1 then st\<lparr>heap := []\<rparr>
      else st\<lparr>heap := butlast ((heap st)[0 := heap st ! (length (heap st) - 1)])\<rparr>)"

definition hp_initial :: heap_state where
  "hp_initial = \<lparr>heap = [], hp_nextJobId = 1, bubblingIndex = None\<rparr>"

text \<open>The max-heap invariant: every cell but the root is no larger than its parent.\<close>

definition heapInv :: "job list \<Rightarrow> bool" where
  "heapInv h = (\<forall>i. 0 < i \<and> i < length h \<longrightarrow>
                  priorityValue (h ! parentIdx i) \<ge> priorityValue (h ! i))"

text \<open>The invariant with a possible violation between cell \<open>k\<close> and its parent only:
  the children of \<open>k\<close> are already no larger than the parent of \<open>k\<close>.\<close>

definition heapExcept :: "job list \<Rightarrow> nat \<Rightarrow> bool" where
  "heapExcept h k =
     ((\<forall>i. 0 < i \<and> i < length h \<and> i \<noteq> k \<longrightarrow>
          priorityValue (h ! parentIdx i) \<ge> priorityValue (h ! i)) \<and>
      (\<forall>i. 0 < i \<and> i < length h \<and> parentIdx i = k \<and> 0 < k \<longrightarrow>
          priorityValue (h ! parentIdx k) \<ge> priorityValue (h ! i)))"

subsection \<open>StacksQueuesModule.tsx\<close>

definition MAX_QUEUE_SIZE :: nat where
  "MAX_QUEUE_SIZE = 8"

definition BACKPRESSURE_THRESHOLD :: nat where
  "BACKPRESSURE_THRESHOLD = 6"

datatype mode = Stack | Queue

text \<open>The entries of the execution log, one constructor per message template.\<close>

datatype logEntry =
    LogBackpressure nat
  | LogAdded nat mode
  | LogProcessed nat mode
  | LogKafkaStarted

record sq_state =
  mode :: mode
  jobs :: "nat list"
  isProcessing :: bool
  processedJobs :: "nat list"
  sq_nextJobId :: nat
  queueDepthHistory :: "(nat \<times> nat) list"
  currentTime :: nat
  backpressureAlert :: bool
  kafkaTriggered :: bool
  executionLog :: "logEntry list"

text \<open>\<open>xs.slice(-n)\<close>: the last \<open>n\<close> elements.\<close>

definition lastN :: "nat \<Rightarrow> 'a list \<Rightarrow> 'a list" where
  "lastN n xs = drop (length xs - n) xs"

text \<open>
  \<open>addJob\<close> is a closure of one render.  It reads \<open>jobs\<close>, \<open>nextJobId\<close> and
  \<open>mode\<close> from that render (the state \<open>seen\<close>), while its setters are functional
  updates of the current state \<open>st\<close>.  Both branches of the conditional inside
  \<open>setJobs\<close> append the id.
\<close>

definition sq_addJob :: "sq_state \<Rightarrow> sq_state \<Rightarrow> sq_state" where
  "sq_addJob seen st =
     (if length (jobs seen) \<ge> MAX_QUEUE_SIZE
      then st\<lparr>backpressureAlert := True,
              executionLog := lastN 4 (executionLog st @ [LogBackpressure MAX_QUEUE_SIZE])\<rparr>
      else st\<lparr>jobs := (if mode seen = Stack then jobs st @ [sq_nextJobId seen]
                        else jobs st @ [sq_nextJobId seen]),
              executionLog := lastN 4 (executionLog st @ [LogAdded (sq_nextJobId seen) (mode seen)]),
              sq_nextJobId := sq_nextJobId st + 1,
              backpressureAlert := False\<rparr>)"

text \<open>\<open>processJob\<close>, likewise a closure: \<open>prev.slice(0, -1)\<close> drops the last job,
  \<open>prev.slice(1)\<close> the first.\<close>

definition processJob :: "sq_state \<Rightarrow> sq_state \<Rightarrow> sq_state" where
  "processJob seen st =
     (if length (jobs seen) = 0 then st
      else if mode seen = Stack
        then st\<lparr>jobs := butlast (jobs st),
                processedJobs := processedJobs st @ [last (jobs seen)],
                executionLog := lastN 4 (executionLog st @ [LogProcessed (last (jobs seen)) (mode seen)])\<rparr>
      else st\<lparr>jobs := drop 1 (jobs st),
              processedJobs := processedJobs st @ [hd (jobs seen)],
              executionLog := lastN 4 (executionLog st @ [LogProcessed (hd (jobs seen)) (mode seen)])\<rparr>)"

definition sq_reset :: "sq_state \<Rightarrow> sq_state" where
  "sq_reset st = st\<lparr>jobs := [], processedJobs := [], sq_nextJobId := 1, isProcessing := False,
                    kafkaTriggered := False, backpressureAlert := False, executionLog := [],
                    queueDepthHistory := [], currentTime := 0\<rparr>"

definition toggleMode :: "sq_state \<Rightarrow> sq_state" where
  "toggleMode st = sq_reset (st\<lparr>mode := (if mode st = Stack then Queue else Stack)\<rparr>)"

text \<open>One tick of the queue-depth monitor (its effect is re-installed whenever
  \<open>jobs.length\<close> or \<open>currentTime\<close> changes, so it sees the current values).\<close>

definition monitorTick :: "sq_state \<Rightarrow> sq_state" where
  "monitorTick st =
     st\<lparr>currentTime := currentTime st + 1,
        queueDepthHistory := lastN 20 (queueDepthHistory st @ [(currentTime st + 1, length (jobs st))]),
        backpressureAlert := (length (jobs st) \<ge> BACKPRESSURE_THRESHOLD)\<rparr>"

text \<open>
  The module as a transition system.  Besides the component state it holds the producer
  intervals started by \<open>runKafkaSimulation\<close>: each interval keeps calling the
  \<open>addJob\<close> of the render in which the simulation was started, for the seven ticks
  (800 ms apart) that fit before the 6000 ms timeout clears it.  The flag of
  \<open>KafkaTick\<close> is the outcome of \<open>Math.random() > 0.5\<close>.  A button that is rendered
  disabled does nothing.
\<close>

record sq_system =
  sq_current :: sq_state
  producers :: "(sq_state \<times> nat) list"

datatype event =
    ClickAddJob
  | ClickStartPause
  | ClickReset
  | ClickToggleMode
  | ClickKafka
  | KafkaTick nat bool
  | ProcessTick
  | MonitorTick
  | AlertTimeout

fun sq_step :: "sq_system \<Rightarrow> event \<Rightarrow> sq_system" where
  "sq_step s ClickAddJob =
     (if length (jobs (sq_current s)) \<ge> MAX_QUEUE_SIZE then s
      else s\<lparr>sq_current := sq_addJob (sq_current s) (sq_current s)\<rparr>)"
| "sq_step s ClickStartPause =
     s\<lparr>sq_current := (sq_current s)\<lparr>isProcessing := \<not> isProcessing (sq_current s)\<rparr>\<rparr>"
| "sq_step s ClickReset = s\<lparr>sq_current := sq_reset (sq_current s)\<rparr>"
| "sq_step s ClickToggleMode = s\<lparr>sq_current := toggleMode (sq_current s)\<rparr>"
| "sq_step s ClickKafka =
     (if kafkaTriggered (sq_current s) then s
      else s\<lparr>sq_current := (sq_current s)\<lparr>kafkaTriggered := True,
                 executionLog := lastN 4 (executionLog (sq_current s) @ [LogKafkaStarted])\<rparr>,
              producers := producers s @ [(sq_current s, 7)]\<rparr>)"
| "sq_step s (KafkaTick i fire) =
     (if i < length (producers s) \<and> 0 < snd (producers s ! i)
      then s\<lparr>sq_current := (if fire then sq_addJob (fst (producers s ! i)) (sq_current s) else sq_current s),
              producers := (producers s)[i := (fst (producers s ! i), snd (producers s ! i) - 1)]\<rparr>
      else s)"
| "sq_step s ProcessTick =
     (if isProcessing (sq_current s) \<and> length (jobs (sq_current s)) > 0
      then s\<lparr>sq_current := processJob (sq_current s) (sq_current s)\<rparr> else s)"
| "sq_step s MonitorTick = s\<lparr>sq_current := monitorTick (sq_current s)\<rparr>"
| "sq_step s AlertTimeout = s\<lparr>sq_current := (sq_current s)\<lparr>backpressureAlert := False\<rparr>\<rparr>"

definition sq_initial :: sq_system where
  "sq_initial =
     \<lparr>sq_current = \<lparr>mode = Queue, jobs = [], isProcessing = False, processedJobs = [],
                  sq_nextJobId = 1, queueDepthHistory = [], currentTime = 0,
                  backpressureAlert = False, kafkaTriggered = False, executionLog = []\<rparr>,
      producers = []\<rparr>"

definition sq_run :: "event list \<Rightarrow> sq_system" where
  "sq_run es = foldl sq_step sq_initial es"

subsection \<open>The graph module: \<open>runBFS\<close> and \<open>runDFS\<close>\<close>

datatype nodeStatus = Idle | Visited | Current | Failed

record graphNode =
  nodeId :: string
  nodeName :: string
  posX :: nat
  posY :: nat
  status :: nodeStatus

record graphEdge =
  edgeFrom :: string
  edgeTo :: string

definition DAG_NODES :: "graphNode list" where
  "DAG_NODES =
     [\<lparr>nodeId = ''A'', nodeName = ''Task A (Extract)'', posX = 150, posY = 80, status = Idle\<rparr>,
      \<lparr>nodeId = ''B'', nodeName = ''Task B (Transform)'', posX = 80, posY = 200, status = Idle\<rparr>,
      \<lparr>nodeId = ''C'', nodeName = ''Task C (Transform)'', posX = 220, posY = 200, status = Idle\<rparr>,
      \<lparr>nodeId = ''D'', nodeName = ''Task D (Load)'', posX = 150, posY = 320, status = Idle\<rparr>]"

definition DAG_EDGES :: "graphEdge list" where
  "DAG_EDGES = [\<lparr>edgeFrom = ''A'', edgeTo = ''B''\<rparr>, \<lparr>edgeFrom = ''A'', edgeTo = ''C''\<rparr>,
                \<lparr>edgeFrom = ''B'', edgeTo = ''D''\<rparr>, \<lparr>edgeFrom = ''C'', edgeTo = ''D''\<rparr>]"

text \<open>\<open>buildGraph\<close>: every node starts with an empty adjacency list, then every edge
  is pushed onto the list of its source.\<close>

definition buildGraph :: "string \<rightharpoonup> string list" where
  "buildGraph =
     foldl (\<lambda>graph edge.
              graph(edgeFrom edge \<mapsto>
                (case graph (edgeFrom edge) of None \<Rightarrow> [] | Some l \<Rightarrow> l) @ [edgeTo edge]))
           (foldl (\<lambda>graph node. graph(nodeId node \<mapsto> [])) Map.empty DAG_NODES)
           DAG_EDGES"

text \<open>\<open>graph[current] || []\<close>.\<close>

definition neighborsOf :: "(string \<rightharpoonup> string list) \<Rightarrow> string \<Rightarrow> string list" where
  "neighborsOf graph current = (case graph current of None \<Rightarrow> [] | Some l \<Rightarrow> l)"

text \<open>
  Modelled from the spec: the head of the \<open>while\<close> loop of \<open>traverse\<close> in
  \<open>runBFS\<close> and in \<open>runDFS\<close>, whose lines are missing from the source text (the
  text resumes inside the first \<open>setNodes\<close> call).  Following the specification
  (BFS and DFS over the fixed graph, every node visited once), the code panel of the
  module (\<open>queue.popleft()\<close>, \<open>stack.pop()\<close>) and the sibling loop of
  \<open>runCrawler\<close>, the head takes the next node from the front of the queue (BFS) or
  from the top of the stack (DFS), skips it when it is already in \<open>vis\<close>, and adds it
  to \<open>vis\<close>.  The rest of each loop body is in the source: BFS pushes the neighbours
  that are neither visited nor queued, DFS pushes the unvisited neighbours in reverse
  order.  The loops run on fuel; \<open>None\<close> means the fuel ran out.  The result is the
  list of nodes in the order in which they were made \<open>current\<close>; the status
  colours that \<open>setNodes\<close> paints along the way are display only and left out.
\<close>

fun bfsLoop :: "nat \<Rightarrow> (string \<rightharpoonup> string list) \<Rightarrow> string list \<Rightarrow> string set \<Rightarrow> string list
                  \<Rightarrow> string list option" where
  "bfsLoop fuel graph [] vis order = Some order"
| "bfsLoop 0 graph (current # q) vis order = None"
| "bfsLoop (Suc fuel) graph (current # q) vis order =
     (if current \<in> vis then bfsLoop fuel graph q vis order
      else bfsLoop fuel graph
             (foldl (\<lambda>q neighbor.
                       if neighbor \<notin> insert current vis \<and> neighbor \<notin> set q
                       then q @ [neighbor] else q)
                    q (neighborsOf graph current))
             (insert current vis) (order @ [current]))"

text \<open>
  Modelled from the spec: the head of the loop of \<open>runDFS\<close> (missing from the
  source text, as for \<open>runBFS\<close>): pop the top of the stack, skip it when it is in
  \<open>vis\<close>, add it to \<open>vis\<close>.  \<open>stk.push\<close> appends and \<open>stk.pop()\<close>
  takes the last cell.
\<close>

fun dfsLoop :: "nat \<Rightarrow> (string \<rightharpoonup> string list) \<Rightarrow> string list \<Rightarrow> string set \<Rightarrow> string list
                  \<Rightarrow> string list option" where
  "dfsLoop 0 graph stk vis order = (if stk = [] then Some order else None)"
| "dfsLoop (Suc fuel) graph stk vis order =
     (if stk = [] then Some order
      else if last stk \<in> vis then dfsLoop fuel graph (butlast stk) vis order
      else dfsLoop fuel graph
             (foldl (\<lambda>s neighbor.
                       if neighbor \<notin> insert (last stk) vis then s @ [neighbor] else s)
                    (butlast stk) (rev (neighborsOf graph (last stk))))
             (insert (last stk) vis) (order @ [last stk]))"

definition runBFS :: "nat \<Rightarrow> string list option" where
  "runBFS fuel = bfsLoop fuel buildGraph [''A''] {} []"

definition runDFS :: "nat \<Rightarrow> string list option" where
  "runDFS fuel = dfsLoop fuel buildGraph [''A''] {} []"

text \<open>
  Reference notions for the two orders.  \<open>reachIn graph s k\<close> lists the nodes at the
  end of a path of \<open>k\<close> edges from \<open>s\<close>; \<open>distanceFrom\<close> is the least such
  \<open>k\<close> below the number of nodes.  \<open>preorder\<close> is the recursive depth-first
  traversal that visits a node and then its unvisited neighbours in list order, with
  the recursion depth bounded by its first argument.
\<close>

fun reachIn :: "(string \<rightharpoonup> string list) \<Rightarrow> string \<Rightarrow> nat \<Rightarrow> string list" where
  "reachIn graph s 0 = [s]"
| "reachIn graph s (Suc k) = concat (map (neighborsOf graph) (reachIn graph s k))"

definition distanceFrom :: "(string \<rightharpoonup> string list) \<Rightarrow> string \<Rightarrow> string \<Rightarrow> nat option" where
  "distanceFrom graph s v =
     List.find (\<lambda>k. v \<in> set (reachIn graph s k)) [0 ..< length DAG_NODES]"

fun preorder :: "nat \<Rightarrow> (string \<rightharpoonup> string list) \<Rightarrow> string list \<Rightarrow> string \<Rightarrow> string list" where
  "preorder 0 graph acc v = acc"
| "preorder (Suc depth) graph acc v =
     (if v \<in> set acc then acc
      else foldl (preorder depth graph) (acc @ [v]) (neighborsOf graph v))"

section \<open>Binary search\<close>

lemma midpoint_bounds: "l \<le> h \<Longrightarrow> l \<le> midpoint l h \<and> midpoint l h \<le> h"
  by (auto simp: midpoint_def)

lemma search_done: "l > h \<Longrightarrow> search arr target l h sc shown = (NotFound sc, shown)"
  by (simp add: search.simps)

lemma search_hit:
  "l \<le> h \<Longrightarrow> strictEq (arrGet arr (midpoint l h)) target \<Longrightarrow>
   search arr target l h sc shown =
     (Found (midpoint l h) (sc + 1), shown @ [\<lparr>low = l, high = h, mid = Some (midpoint l h)\<rparr>])"
  by (simp add: search.simps[of arr target l h])

lemma search_right:
  "l \<le> h \<Longrightarrow> \<not> strictEq (arrGet arr (midpoint l h)) target \<Longrightarrow>
   lessThanJs (arrGet arr (midpoint l h)) target \<Longrightarrow>
   search arr target l h sc shown =
     search arr target (midpoint l h + 1) h (sc + 1)
       (shown @ [\<lparr>low = l, high = h, mid = Some (midpoint l h)\<rparr>])"
  by (simp add: search.simps[of arr target l h])

lemma search_left:
  "l \<le> h \<Longrightarrow> \<not> strictEq (arrGet arr (midpoint l h)) target \<Longrightarrow>
   \<not> lessThanJs (arrGet arr (midpoint l h)) target \<Longrightarrow>
   search arr target l h sc shown =
     search arr target l (midpoint l h - 1) (sc + 1)
       (shown @ [\<lparr>low = l, high = h, mid = Some (midpoint l h)\<rparr>])"
  by (simp add: search.simps[of arr target l h])

lemma half_right: "l \<le> h \<Longrightarrow> nat (h - (midpoint l h + 1) + 1) \<le> nat (h - l + 1) div 2"
  unfolding midpoint_def by (simp add: nat_div_distrib) 

lemma half_left: "l \<le> h \<Longrightarrow> nat (midpoint l h - 1 - l + 1) \<le> nat (h - l + 1) div 2"
  unfolding midpoint_def by (simp add: nat_div_distrib) 

lemma floorlog_half: "0 < n \<Longrightarrow> k \<le> n div 2 \<Longrightarrow> Suc (floorlog 2 k) \<le> floorlog 2 n"
  using floorlog_mono[of k "n div 2" 2] compute_floorlog[of 2 n] by simp

lemma search_steps:
  "stepsOf (fst (search arr target l h sc shown)) \<le> sc + floorlog 2 (nat (h - l + 1))"
proof (induction arr target l h sc shown rule: search.induct)
  case (1 arr target l h sc shown)
  let ?m = "midpoint l h"
  let ?sh = "shown @ [\<lparr>low = l, high = h, mid = Some ?m\<rparr>]"
  consider (stop) "l > h"
    | (hit) "l \<le> h" "strictEq (arrGet arr ?m) target"
    | (right) "l \<le> h" "\<not> strictEq (arrGet arr ?m) target" "lessThanJs (arrGet arr ?m) target"
    | (left) "l \<le> h" "\<not> strictEq (arrGet arr ?m) target" "\<not> lessThanJs (arrGet arr ?m) target"
    by linarith
  then show ?case
  proof cases
    case stop
    then show ?thesis by (simp add: search_done stepsOf_def)
  next
    case hit
    have "Suc (floorlog 2 0) \<le> floorlog 2 (nat (h - l + 1))"
      using hit(1) by (intro floorlog_half) auto
    then show ?thesis using hit by (simp add: search_hit stepsOf_def)
  next
    case right
    have "\<not> h < l" using right(1) by simp
    from "1.IH"(1)[OF this right(2) right(3)]
    have "stepsOf (fst (search arr target (?m + 1) h (sc + 1) ?sh))
            \<le> sc + 1 + floorlog 2 (nat (h - (?m + 1) + 1))" .
    moreover have "Suc (floorlog 2 (nat (h - (?m + 1) + 1))) \<le> floorlog 2 (nat (h - l + 1))"
      using right(1) half_right[of l h] by (intro floorlog_half) auto
    ultimately show ?thesis using right by (simp add: search_right)
  next
    case left
    have "\<not> h < l" using left(1) by simp
    from "1.IH"(2)[OF this left(2) left(3)]
    have "stepsOf (fst (search arr target l (?m - 1) (sc + 1) ?sh))
            \<le> sc + 1 + floorlog 2 (nat (?m - 1 - l + 1))" .
    moreover have "Suc (floorlog 2 (nat (?m - 1 - l + 1))) \<le> floorlog 2 (nat (h - l + 1))"
      using left(1) half_left[of l h] by (intro floorlog_half) auto
    ultimately show ?thesis using left by (simp add: search_left)
  qed
qed


lemma search_found_sound:
  "fst (search arr target l h sc shown) = Found m k \<Longrightarrow> 0 \<le> l \<Longrightarrow> h < int (length arr) \<Longrightarrow>
     l \<le> m \<and> m \<le> h \<and> arr ! nat m = target"
proof (induction arr target l h sc shown rule: search.induct)
  case (1 arr target l h sc shown)
  let ?m = "midpoint l h"
  let ?sh = "shown @ [\<lparr>low = l, high = h, mid = Some ?m\<rparr>]"
  consider (stop) "l > h"
    | (hit) "l \<le> h" "strictEq (arrGet arr ?m) target"
    | (right) "l \<le> h" "\<not> strictEq (arrGet arr ?m) target" "lessThanJs (arrGet arr ?m) target"
    | (left) "l \<le> h" "\<not> strictEq (arrGet arr ?m) target" "\<not> lessThanJs (arrGet arr ?m) target"
    by linarith
  then show ?case
  proof cases
    case stop
    with "1.prems" show ?thesis by (simp add: search_done)
  next
    case hit
    with "1.prems" midpoint_bounds[of l h] show ?thesis
      by (auto simp: search_hit strictEq_def arrGet_def split: if_splits)
  next
    case right
    have nlt: "\<not> h < l" using right(1) by simp
    have "fst (search arr target (?m + 1) h (sc + 1) ?sh) = Found m k"
      using "1.prems"(1) right by (simp add: search_right)
    from "1.IH"(1)[OF nlt right(2) right(3) this] "1.prems" midpoint_bounds[of l h] right(1)
    show ?thesis by auto
  next
    case left
    have nlt: "\<not> h < l" using left(1) by simp
    have "fst (search arr target l (?m - 1) (sc + 1) ?sh) = Found m k"
      using "1.prems"(1) left by (simp add: search_left)
    from "1.IH"(2)[OF nlt left(2) left(3) this] "1.prems" midpoint_bounds[of l h] left(1)
    show ?thesis by auto
  qed
qed

lemma sorted_int_nth_mono:
  "sorted arr \<Longrightarrow> 0 \<le> i \<Longrightarrow> i \<le> j \<Longrightarrow> j < int (length arr) \<Longrightarrow> arr ! nat i \<le> arr ! nat j"
  by (rule sorted_nth_mono) auto

lemma search_complete:
  "sorted arr \<Longrightarrow> 0 \<le> l \<Longrightarrow> h < int (length arr) \<Longrightarrow> l \<le> i \<Longrightarrow> i \<le> h \<Longrightarrow>
   arr ! nat i = target \<Longrightarrow> \<exists>m k. fst (search arr target l h sc shown) = Found m k"
proof (induction arr target l h sc shown rule: search.induct)
  case (1 arr target l h sc shown)
  let ?m = "midpoint l h"
  let ?sh = "shown @ [\<lparr>low = l, high = h, mid = Some ?m\<rparr>]"
  have lh: "l \<le> h" using "1.prems" by linarith
  have nlt: "\<not> h < l" using lh by simp
  have mb: "l \<le> ?m" "?m \<le> h" using midpoint_bounds[OF lh] by auto
  have get: "arrGet arr ?m = Some (arr ! nat ?m)"
    using mb "1.prems" by (simp add: arrGet_def)
  consider (hit) "strictEq (arrGet arr ?m) target"
    | (right) "\<not> strictEq (arrGet arr ?m) target" "lessThanJs (arrGet arr ?m) target"
    | (left) "\<not> strictEq (arrGet arr ?m) target" "\<not> lessThanJs (arrGet arr ?m) target"
    by blast
  then show ?case
  proof cases
    case hit
    then show ?thesis using lh by (simp add: search_hit)
  next
    case right
    have "arr ! nat ?m < arr ! nat i" using right(2) get "1.prems" by (simp add: lessThanJs_def)
    then have "\<not> i \<le> ?m"
      using sorted_int_nth_mono[of arr i ?m] "1.prems" mb by auto
    then have "?m + 1 \<le> i" by simp
    from "1.IH"(1)[OF nlt right(1) right(2) "1.prems"(1) _ "1.prems"(3) this "1.prems"(5,6)]
    show ?thesis using lh right mb "1.prems"(2) by (simp add: search_right)
  next
    case left
    have "arr ! nat ?m \<noteq> arr ! nat i" using left(1) get "1.prems" by (auto simp: strictEq_def)
    moreover have "\<not> arr ! nat ?m < arr ! nat i" using left(2) get "1.prems" by (simp add: lessThanJs_def)
    ultimately have "arr ! nat i < arr ! nat ?m" by simp
    then have "\<not> ?m \<le> i"
      using sorted_int_nth_mono[of arr ?m i] "1.prems" mb by auto
    then have "i \<le> ?m - 1" by simp
    from "1.IH"(2)[OF nlt left(1) left(2) "1.prems"(1,2) _ "1.prems"(4) this "1.prems"(6)]
    show ?thesis using lh left mb "1.prems"(3) by (simp add: search_left)
  qed
qed

lemma search_display:
  "\<forall>d \<in> set shown. low d \<le> high d \<Longrightarrow>
   \<forall>d \<in> set (snd (search arr target l h sc shown)). low d \<le> high d"
proof (induction arr target l h sc shown rule: search.induct)
  case (1 arr target l h sc shown)
  let ?m = "midpoint l h"
  let ?sh = "shown @ [\<lparr>low = l, high = h, mid = Some ?m\<rparr>]"
  consider (stop) "l > h"
    | (hit) "l \<le> h" "strictEq (arrGet arr ?m) target"
    | (right) "l \<le> h" "\<not> strictEq (arrGet arr ?m) target" "lessThanJs (arrGet arr ?m) target"
    | (left) "l \<le> h" "\<not> strictEq (arrGet arr ?m) target" "\<not> lessThanJs (arrGet arr ?m) target"
    by linarith
  then show ?case
  proof cases
    case stop
    with "1.prems" show ?thesis by (simp add: search_done)
  next
    case hit
    with "1.prems" show ?thesis by (simp add: search_hit)
  next
    case right
    have nlt: "\<not> h < l" using right(1) by simp
    have "\<forall>d \<in> set ?sh. low d \<le> high d" using "1.prems" right(1) by simp
    from "1.IH"(1)[OF nlt right(2) right(3) this] show ?thesis using right by (simp add: search_right)
  next
    case left
    have nlt: "\<not> h < l" using left(1) by simp
    have "\<forall>d \<in> set ?sh. low d \<le> high d" using "1.prems" left(1) by simp
    from "1.IH"(2)[OF nlt left(2) left(3) this] show ?thesis using left by (simp add: search_left)
  qed
qed


text \<open>
  Claim C1 (amended).  For every sorted integer array and every target, the search
  terminates (\<open>search\<close> is a total function).  If the target is present, the run
  reports found at an index \<open>m\<close> inside the array with \<open>arr[m] = target\<close>.  If the
  target is absent, the run reports not-found after inspecting at most
  \<open>\<lfloor>log2 N\<rfloor> + 1\<close> mid positions (none for the empty array), which is
  \<open>floorlog 2 N\<close>.
\<close>

theorem binary_search_correct:
  assumes "sorted arr"
  shows "(target \<in> set arr \<longrightarrow>
            (\<exists>m k. fst (runBinarySearch arr target) = Found m k \<and>
                   0 \<le> m \<and> m < int (length arr) \<and> arr ! nat m = target)) \<and>
         (target \<notin> set arr \<longrightarrow>
            (\<exists>k. fst (runBinarySearch arr target) = NotFound k \<and> k \<le> floorlog 2 (length arr)))"
proof (intro conjI impI)
  assume "target \<in> set arr"
  then obtain j where j: "j < length arr" "arr ! j = target" by (auto simp: in_set_conv_nth)
  have "\<exists>m k. fst (search arr target 0 (int (length arr) - 1) 0
                 [\<lparr>low = 0, high = int (length arr) - 1, mid = None\<rparr>]) = Found m k"
    using assms j by (intro search_complete[where i = "int j"]) auto
  then obtain m k where mk: "fst (runBinarySearch arr target) = Found m k"
    by (auto simp: runBinarySearch_def)
  then have "0 \<le> m \<and> m \<le> int (length arr) - 1 \<and> arr ! nat m = target"
    unfolding runBinarySearch_def by (intro search_found_sound) auto
  with mk show "\<exists>m k. fst (runBinarySearch arr target) = Found m k \<and>
                   0 \<le> m \<and> m < int (length arr) \<and> arr ! nat m = target"
    by auto
next
  assume absent: "target \<notin> set arr"
  have steps: "stepsOf (fst (runBinarySearch arr target)) \<le> floorlog 2 (length arr)"
    using search_steps[of arr target 0 "int (length arr) - 1" 0] by (simp add: runBinarySearch_def)
  show "\<exists>k. fst (runBinarySearch arr target) = NotFound k \<and> k \<le> floorlog 2 (length arr)"
  proof (cases "fst (runBinarySearch arr target)")
    case (Found m k)
    then have "0 \<le> m \<and> m \<le> int (length arr) - 1 \<and> arr ! nat m = target"
      unfolding runBinarySearch_def by (intro search_found_sound) auto
    then have "target \<in> set arr" by (auto simp: in_set_conv_nth intro!: exI[of _ "nat m"])
    with absent show ?thesis by simp
  next
    case (NotFound k)
    with steps show ?thesis by (simp add: stepsOf_def)
  qed
qed

theorem binary_search_correct_witness:
  "sorted sortedArray \<and> 67 \<in> set sortedArray \<and>
   (\<exists>m k. fst (runBinarySearch sortedArray 67) = Found m k \<and>
          0 \<le> m \<and> m < int (length sortedArray) \<and> sortedArray ! nat m = 67) \<and>
   300 \<notin> set sortedArray \<and>
   (\<exists>k. fst (runBinarySearch sortedArray 300) = NotFound k \<and> k \<le> floorlog 2 (length sortedArray))"
proof -
  have s: "sorted sortedArray" by (simp add: sortedArray_def)
  have a: "67 \<in> set sortedArray" by (simp add: sortedArray_def)
  have b: "300 \<notin> set sortedArray" by (simp add: sortedArray_def)
  show ?thesis using s a b binary_search_correct[OF s, of 67] binary_search_correct[OF s, of 300] by blast
qed

text \<open>
  The bound of the claim as written, \<open>\<lceil>log2 N\<rceil>\<close>, is exceeded on the module's own
  array: searching for 300 inspects five mid positions, while \<open>\<lceil>log2 16\<rceil> = 4\<close>.
\<close>

theorem binary_search_ceillog2_counterexample:
  "sorted sortedArray \<and> 300 \<notin> set sortedArray \<and>
   fst (runBinarySearch sortedArray 300) = NotFound 5 \<and>
   \<not> 5 \<le> ceillog2 (length sortedArray)"
proof -
  have "length sortedArray = 2 ^ 4" by (simp add: sortedArray_def)
  then have "ceillog2 (length sortedArray) = 4" by (simp only: ceillog2_2_power)
  moreover have "fst (runBinarySearch sortedArray 300) = NotFound 5"
    by (simp add: runBinarySearch_def sortedArray_def search.simps midpoint_def arrGet_def
          strictEq_def lessThanJs_def)
  ultimately show ?thesis by (simp add: sortedArray_def)
qed

lemma display_low_le_high_nonempty:
  "arr \<noteq> [] \<Longrightarrow> \<forall>d \<in> set (snd (runBinarySearch arr target)). low d \<le> high d"
  unfolding runBinarySearch_def by (rule search_display) (cases arr, auto)

lemma displayed_sample:
  "snd (runBinarySearch sortedArray 67) =
     [\<lparr>low = 0, high = 15, mid = None\<rparr>, \<lparr>low = 0, high = 15, mid = Some 7\<rparr>,
      \<lparr>low = 0, high = 6, mid = Some 3\<rparr>, \<lparr>low = 4, high = 6, mid = Some 5\<rparr>]"
  by (simp add: runBinarySearch_def sortedArray_def search.simps midpoint_def arrGet_def
        strictEq_def lessThanJs_def)

text \<open>
  Claim C7.  Throughout every run of the binary-search animation (the module's fixed
  array, any target) every displayed pair satisfies \<open>low \<le> high\<close>: the display
  starts at \<open>low = 0\<close>, \<open>high = length - 1 = 15\<close>, and afterwards the setters
  run only on iterations with \<open>l \<le> h\<close> (lemma \<open>search_done\<close>: with \<open>l > h\<close>
  the display is left as it is).  Lemma \<open>display_low_le_high_nonempty\<close> gives the
  same for every non-empty array.
\<close>

theorem display_low_le_high:
  "\<forall>d \<in> set (snd (runBinarySearch sortedArray target)). low d \<le> high d"
  by (rule display_low_le_high_nonempty) (simp add: sortedArray_def)

theorem display_low_le_high_witness:
  "\<lparr>low = 4, high = 6, mid = Some 5\<rparr> \<in> set (snd (runBinarySearch sortedArray 67)) \<and>
   low \<lparr>low = 4, high = 6, mid = Some 5\<rparr> \<le> high \<lparr>low = 4, high = 6, mid = Some 5\<rparr>"
proof -
  have m: "\<lparr>low = 4, high = 6, mid = Some 5\<rparr> \<in> set (snd (runBinarySearch sortedArray 67))"
    by (simp add: displayed_sample)
  show ?thesis using m display_low_le_high[of 67, THEN bspec, OF m] by simp
qed

section \<open>Sliding window\<close>

lemma toNumber_exact: "\<bar>x\<bar> \<le> 2 ^ 53 \<Longrightarrow> toNumber x = Finite x"
  by (simp add: toNumber_def)

lemma pow53: "(2::int) ^ 53 = 4 * 2 ^ 51"
  by simp

lemma add3_exact:
  assumes "\<bar>a\<bar> \<le> 2 ^ 51" "\<bar>b\<bar> \<le> 2 ^ 51" "\<bar>c\<bar> \<le> 2 ^ 51"
  shows "numAdd (numAdd (numAdd (Finite 0) (toNumber a)) (toNumber b)) (toNumber c)
           = Finite (a + b + c)"
proof -
  have ta: "toNumber a = Finite a" and tb: "toNumber b = Finite b" and tc: "toNumber c = Finite c"
    using assms pow53 by (auto intro!: toNumber_exact)
  have tab: "toNumber (a + b) = Finite (a + b)"
    using assms pow53 by (intro toNumber_exact) linarith
  have tabc: "toNumber (a + b + c) = Finite (a + b + c)"
    using assms pow53 by (intro toNumber_exact) linarith
  show ?thesis by (simp add: ta tb tc tab tabc)
qed

lemma slide_exact:
  assumes "\<bar>a\<bar> \<le> 2 ^ 51" "\<bar>b\<bar> \<le> 2 ^ 51" "\<bar>c\<bar> \<le> 2 ^ 51" "\<bar>e\<bar> \<le> 2 ^ 51"
  shows "numAdd (numSub (Finite (a + b + c)) (toNumber a)) (toNumber e) = Finite (b + c + e)"
proof -
  have ta: "toNumber a = Finite a" and te: "toNumber e = Finite e"
    using assms pow53 by (auto intro!: toNumber_exact)
  have tbc: "toNumber (b + c) = Finite (b + c)"
    using assms pow53 by (intro toNumber_exact) linarith
  have tbce: "toNumber (b + c + e) = Finite (b + c + e)"
    using assms pow53 by (intro toNumber_exact) linarith
  have "numSub (Finite (a + b + c)) (toNumber a) = Finite (b + c)"
    by (simp add: numSub_def ta tbc)
  then show ?thesis by (simp add: te tbce)
qed

lemma bounded51_nth: "bounded51 d \<Longrightarrow> i < length d \<Longrightarrow> \<bar>d ! i\<bar> \<le> 2 ^ 51"
  by (simp add: bounded51_def list_all_length)

lemma windowSum_win3:
  assumes "p + 3 \<le> length d" "bounded51 d"
  shows "windowSum d (p + WINDOW_SIZE - 1) = Some (Finite (win3 d p))"
proof -
  have "drop p d = d ! p # d ! (p + 1) # d ! (p + 2) # drop (p + 3) d"
    using assms by (simp add: Cons_nth_drop_Suc numeral_3_eq_3)
  then have "take 3 (drop p d) = [d ! p, d ! (p + 1), d ! (p + 2)]"
    by (simp add: numeral_3_eq_3)
  moreover have "numAdd (numAdd (numAdd (Finite 0) (toNumber (d ! p))) (toNumber (d ! (p + 1))))
                   (toNumber (d ! (p + 2))) = Finite (d ! p + d ! (p + 1) + d ! (p + 2))"
    using assms by (intro add3_exact bounded51_nth) simp_all
  ultimately show ?thesis
    by (simp add: windowSum_def WINDOW_SIZE_def sliceJs_def win3_def)
qed

lemma sw_tick_first:
  assumes "windowStart st = 0" "3 \<le> length (sw_data st)" "bounded51 (sw_data st)"
  shows "sw_tick st = st\<lparr>currentSum := Finite (win3 (sw_data st) 0),
            alertWindow := (if win3 (sw_data st) 0 > THRESHOLD then Some 0 else alertWindow st),
            windowStart := 1\<rparr>"
proof -
  let ?d = "sw_data st"
  have u: "[0 ..< 3] = [0, 1, 2::nat]" by (simp add: upt_rec)
  have "numAdd (numAdd (numAdd (Finite 0) (toNumber (?d ! 0))) (toNumber (?d ! 1)))
          (toNumber (?d ! 2)) = Finite (?d ! 0 + ?d ! 1 + ?d ! 2)"
  proof (intro add3_exact bounded51_nth)
    show "bounded51 ?d" "bounded51 ?d" "bounded51 ?d" by (rule assms(3))+
    show "0 < length ?d" "1 < length ?d" "2 < length ?d" using assms(2) by linarith+
  qed
  then show ?thesis using assms u
    by (simp add: sw_tick_def WINDOW_SIZE_def Let_def win3_def numeral_2_eq_2)
qed

lemma sw_tick_slide:
  assumes "windowStart st = Suc q" "Suc q + 3 \<le> length (sw_data st)"
    "currentSum st = Finite (win3 (sw_data st) q)" "bounded51 (sw_data st)"
  shows "sw_tick st = st\<lparr>currentSum := Finite (win3 (sw_data st) (Suc q)),
            alertWindow := (if win3 (sw_data st) (Suc q) > THRESHOLD then Some (Suc q) else alertWindow st),
            windowStart := Suc (Suc q)\<rparr>"
proof -
  let ?d = "sw_data st"
  have "numAdd (numSub (Finite (?d ! q + ?d ! (q + 1) + ?d ! (q + 2))) (toNumber (?d ! q)))
          (toNumber (?d ! (q + 3))) = Finite (?d ! (q + 1) + ?d ! (q + 2) + ?d ! (q + 3))"
    using assms by (intro slide_exact bounded51_nth) simp_all
  then show ?thesis using assms
    by (simp add: sw_tick_def WINDOW_SIZE_def Let_def win3_def numeral_3_eq_3)
qed

lemma sw_tick_window:
  assumes "windowStart st = q" "q + 3 \<le> length (sw_data st)" "bounded51 (sw_data st)"
    "0 < q \<longrightarrow> currentSum st = Finite (win3 (sw_data st) (q - 1))"
  shows "windowStart (sw_tick st) = q + 1 \<and> currentSum (sw_tick st) = Finite (win3 (sw_data st) q) \<and>
         sw_data (sw_tick st) = sw_data st \<and> sw_isPlaying (sw_tick st) = sw_isPlaying st \<and>
         sw_pythonComplete (sw_tick st) = sw_pythonComplete st"
proof (cases q)
  case 0
  then show ?thesis using assms sw_tick_first[of st] by simp
next
  case (Suc r)
  then show ?thesis using assms sw_tick_slide[of st r] by simp
qed

lemma sw_play_windows:
  "sw_isPlaying st \<Longrightarrow> \<not> sw_pythonComplete st \<Longrightarrow> bounded51 (sw_data st) \<Longrightarrow>
   (0 < windowStart st \<longrightarrow> currentSum st = Finite (win3 (sw_data st) (windowStart st - 1))) \<Longrightarrow>
   windowStart st \<le> p \<Longrightarrow> p + 3 \<le> length (sw_data st) \<Longrightarrow>
   p - windowStart st < length (sw_play st) \<and>
   windowStart (sw_play st ! (p - windowStart st)) = p + 1 \<and>
   currentSum (sw_play st ! (p - windowStart st)) = Finite (win3 (sw_data st) p)"
proof (induction st rule: sw_play.induct)
  case (1 st)
  let ?q = "windowStart st"
  have play: "sw_play st = sw_tick st # sw_play (sw_tick st)"
    using "1.prems" by (simp add: sw_play.simps[of st])
  have tick: "windowStart (sw_tick st) = ?q + 1"
    "currentSum (sw_tick st) = Finite (win3 (sw_data st) ?q)"
    "sw_data (sw_tick st) = sw_data st" "sw_isPlaying (sw_tick st)" "\<not> sw_pythonComplete (sw_tick st)"
    using sw_tick_window[of st ?q] "1.prems" by auto
  show ?case
  proof (cases "p = ?q")
    case True
    then show ?thesis using play tick by simp
  next
    case False
    then have lt: "?q + 1 \<le> p" using "1.prems" by simp
    have "p - windowStart (sw_tick st) < length (sw_play (sw_tick st)) \<and>
          windowStart (sw_play (sw_tick st) ! (p - windowStart (sw_tick st))) = p + 1 \<and>
          currentSum (sw_play (sw_tick st) ! (p - windowStart (sw_tick st))) =
            Finite (win3 (sw_data (sw_tick st)) p)"
      using "1.prems" tick lt by (intro "1.IH") auto
    moreover have "p - ?q = Suc (p - (?q + 1))" using lt by simp
    ultimately show ?thesis using play tick by simp
  qed
qed

lemma bitLength_1e16: "bitLength 10000000000000000 = 54" "bitLength 10000000000000001 = 54"
  by (simp_all add: bitLength.simps)

lemma toNumber_1e16: "toNumber 10000000000000000 = Finite 10000000000000000"
  "toNumber 10000000000000001 = Finite 10000000000000000"
  by (simp_all add: toNumber_def bitLength_1e16 Let_def)

lemma sw_drift:
  "map currentSum (sw_play (sw_start [10000000000000000, 1, 1, 1])) =
     [Finite 10000000000000000, Finite 1, Finite 1]"
  by (simp add: sw_start_def sw_play.simps sw_tick_def WINDOW_SIZE_def Let_def upt_rec numSub_def
        toNumber_1e16 toNumber_exact THRESHOLD_def)

lemma table_row3: "windowSum [10000000000000000, 1, 1, 1] 3 = Some (Finite 3)"
  by (simp add: windowSum_def WINDOW_SIZE_def sliceJs_def toNumber_exact)

lemma parse_big: "parseNumbers ''10000000000000000, 1, 1, 1'' = [10000000000000000, 1, 1, 1]"
  by (simp add: parseNumbers_def parseInt_def trim_def isWhiteSpace_def digitOf_def Let_def)

text \<open>
  Claim C3 (amended).  For every integer array whose entries have magnitude at most
  \<open>2^51\<close>, with \<open>WINDOW_SIZE = 3 \<le> N\<close>, and every window start
  \<open>p \<le> N - WINDOW_SIZE\<close>: the tick that processes window \<open>p\<close> exists, moves
  \<open>windowStart\<close> to \<open>p + 1\<close>, and stores in \<open>currentSum\<close> the value that the
  table view computes by slice-and-reduce for row \<open>p + WINDOW_SIZE - 1\<close>; both are the
  exact sum of the three cells.
\<close>

theorem sliding_sum_eq_windowSum:
  assumes "WINDOW_SIZE \<le> length d" "p \<le> length d - WINDOW_SIZE"
    "\<forall>x \<in> set d. \<bar>x\<bar> \<le> 2 ^ 51"
  shows "p < length (sw_play (sw_start d)) \<and>
         windowStart (sw_play (sw_start d) ! p) = p + 1 \<and>
         Some (currentSum (sw_play (sw_start d) ! p)) = windowSum d (p + WINDOW_SIZE - 1) \<and>
         currentSum (sw_play (sw_start d) ! p) = Finite (d ! p + d ! (p + 1) + d ! (p + 2))"
proof -
  have p3: "p + 3 \<le> length d" using assms by (simp add: WINDOW_SIZE_def)
  have b: "bounded51 d" using assms(3) by (simp add: bounded51_def list_all_iff)
  have "p - windowStart (sw_start d) < length (sw_play (sw_start d)) \<and>
        windowStart (sw_play (sw_start d) ! (p - windowStart (sw_start d))) = p + 1 \<and>
        currentSum (sw_play (sw_start d) ! (p - windowStart (sw_start d))) =
          Finite (win3 (sw_data (sw_start d)) p)"
    using p3 b by (intro sw_play_windows) (simp_all add: sw_start_def)
  then show ?thesis using windowSum_win3[OF p3 b] by (simp add: sw_start_def win3_def)
qed

theorem sliding_sum_eq_windowSum_witness:
  "WINDOW_SIZE \<le> length [40, 30, 60, 70, 50 :: int] \<and>
   (2::nat) \<le> length [40, 30, 60, 70, 50 :: int] - WINDOW_SIZE \<and>
   list_all (\<lambda>x. \<bar>x\<bar> \<le> 2 ^ 51) [40, 30, 60, 70, 50 :: int] \<and>
   currentSum (sw_play (sw_start [40, 30, 60, 70, 50]) ! 2) = Finite 180 \<and>
   windowSum [40, 30, 60, 70, 50] 4 = Some (Finite 180)"
proof -
  have h1: "WINDOW_SIZE \<le> length [40, 30, 60, 70, 50 :: int]" by (simp add: WINDOW_SIZE_def)
  have h2: "(2::nat) \<le> length [40, 30, 60, 70, 50 :: int] - WINDOW_SIZE" by (simp add: WINDOW_SIZE_def)
  have h3: "\<forall>x \<in> set [40, 30, 60, 70, 50 :: int]. \<bar>x\<bar> \<le> 2 ^ 51" by simp
  have c: "currentSum (sw_play (sw_start [40, 30, 60, 70, 50]) ! 2) = Finite 180"
    using sliding_sum_eq_windowSum[OF h1 h2 h3] by simp
  have w: "windowSum [40, 30, 60, 70, 50] 4 = Some (Finite 180)"
    using sliding_sum_eq_windowSum[OF h1 h2 h3] c by (simp add: WINDOW_SIZE_def)
  have h3': "list_all (\<lambda>x. \<bar>x\<bar> \<le> 2 ^ 51) [40, 30, 60, 70, 50 :: int]" by simp
  show ?thesis using h1 h2 h3' c w by blast
qed

text \<open>
  The claim as written, for every integer array, fails on the program: typing
  \<open>10000000000000000, 1, 1, 1\<close> stores that dataset, the first window sum is rounded
  to \<open>10000000000000000\<close>, and for the window that starts at 1 the incremental
  update gives \<open>10000000000000000 - 10000000000000000 + 1 = 1\<close> while the table view
  computes \<open>1 + 1 + 1 = 3\<close>.
\<close>

theorem sliding_sum_rounding_counterexample:
  "parseNumbers ''10000000000000000, 1, 1, 1'' = [10000000000000000, 1, 1, 1] \<and>
   WINDOW_SIZE \<le> length [10000000000000000, 1, 1, 1 :: int] \<and>
   (1::nat) \<le> length [10000000000000000, 1, 1, 1 :: int] - WINDOW_SIZE \<and>
   currentSum (sw_play (sw_start [10000000000000000, 1, 1, 1]) ! 1) = Finite 1 \<and>
   windowSum [10000000000000000, 1, 1, 1] (1 + WINDOW_SIZE - 1) = Some (Finite 3)"
proof -
  have "map currentSum (sw_play (sw_start [10000000000000000, 1, 1, 1])) ! 1 = Finite 1"
    by (simp add: sw_drift)
  moreover have "(1::nat) < length (sw_play (sw_start [10000000000000000, 1, 1, 1]))"
    using arg_cong[OF sw_drift, of length] by simp
  ultimately have c: "currentSum (sw_play (sw_start [10000000000000000, 1, 1, 1]) ! 1) = Finite 1"
    by simp
  have w: "windowSum [10000000000000000, 1, 1, 1] (1 + WINDOW_SIZE - 1) = Some (Finite 3)"
    using table_row3 by (simp add: WINDOW_SIZE_def)
  show ?thesis using c w parse_big by (simp add: WINDOW_SIZE_def)
qed

section \<open>Two pointers\<close>

lemma remdups_adj_snoc:
  assumes "xs \<noteq> []"
  shows "remdups_adj (xs @ [y]) = remdups_adj xs @ (if last xs = y then [] else [y])"
proof -
  have "xs = butlast xs @ [last xs]" using assms by simp
  then have "remdups_adj (xs @ [y]) = remdups_adj (butlast xs @ [last xs, y])"
    by (metis append.assoc append_Cons append_Nil)
  also have "\<dots> = remdups_adj (butlast xs @ [last xs]) @ (if last xs = y then [] else [y])"
    by (rule remdups_adj_append_two)
  finally show ?thesis using assms by simp
qed

lemma cellWrite_take:
  assumes "w < length p"
  shows "take (Suc w) (cellWrite p w v) = take w p @ [Some v]" "length (cellWrite p w v) = length p"
  using assms by (simp_all add: cellWrite_def take_Suc_conv_app_nth)

lemma tp_play_remdups_adj:
  "tp_isPlaying st \<Longrightarrow> \<not> tp_pythonComplete st \<Longrightarrow> 1 \<le> readPointer st \<Longrightarrow>
   readPointer st \<le> length (tp_data st) \<Longrightarrow> writePointer st \<le> readPointer st \<Longrightarrow>
   length (processedArray st) = length (tp_data st) \<Longrightarrow>
   take (writePointer st) (processedArray st) =
     map Some (remdups_adj (take (readPointer st) (tp_data st))) \<Longrightarrow>
   tp_pythonComplete (tp_play st) \<and> \<not> tp_isPlaying (tp_play st) \<and>
   tp_data (tp_play st) = tp_data st \<and>
   writePointer (tp_play st) = length (remdups_adj (tp_data st)) \<and>
   take (writePointer (tp_play st)) (processedArray (tp_play st)) =
     map Some (remdups_adj (tp_data st))"
proof (induction st rule: tp_play.induct)
  case (1 st)
  let ?d = "tp_data st" and ?r = "readPointer st" and ?w = "writePointer st"
  let ?p = "processedArray st"
  have play: "tp_play st = tp_play (tp_tick st)"
    using "1.prems" by (simp add: tp_play.simps[of st])
  have wlen: "?w = length (remdups_adj (take ?r ?d))"
  proof -
    have "length (take ?w ?p) = ?w" using "1.prems"(3-6) by simp
    then show ?thesis using "1.prems"(7) by (metis length_map)
  qed
  have nonempty: "take ?r ?d \<noteq> []" using "1.prems" by auto
  then have wpos: "0 < ?w" using wlen by simp
  show ?case
  proof (cases "?r \<ge> length ?d")
    case True
    then have r: "?r = length ?d" using "1.prems" by simp
    have tick: "tp_tick st = st\<lparr>tp_isPlaying := False, tp_pythonComplete := True\<rparr>"
      using True by (simp add: tp_tick_def)
    have stop: "tp_play (tp_tick st) = tp_tick st"
      by (simp add: tick tp_play.simps[of "st\<lparr>tp_isPlaying := False, tp_pythonComplete := True\<rparr>"])
    have full: "take ?r ?d = ?d" using r by simp
    have w: "writePointer (tp_tick st) = length (remdups_adj ?d)"
      using wlen full by (simp add: tick)
    have t: "take (writePointer (tp_tick st)) (processedArray (tp_tick st)) = map Some (remdups_adj ?d)"
      using "1.prems"(7) full by (simp add: tick)
    have c: "tp_pythonComplete (tp_tick st)" "\<not> tp_isPlaying (tp_tick st)" "tp_data (tp_tick st) = ?d"
      by (simp_all add: tick)
    have "tp_play st = tp_tick st" using play stop by simp
    then show ?thesis using w t c by simp
  next
    case False
    then have rlt: "?r < length ?d" by simp
    have tk: "take (Suc ?r) ?d = take ?r ?d @ [?d ! ?r]"
      using rlt by (simp add: take_Suc_conv_app_nth)
    have lastw: "cellRead ?p (?w - 1) = Some (last (take ?r ?d))"
    proof -
      have wlt0: "?w - 1 < length ?p" using "1.prems"(3-6) rlt by simp
      have "?w - 1 < ?w" using wpos by simp
      then have "?p ! (?w - 1) = take ?w ?p ! (?w - 1)" by simp
      also have "\<dots> = Some (remdups_adj (take ?r ?d) ! (?w - 1))"
        using "1.prems"(7) wlen wpos by simp
      also have "remdups_adj (take ?r ?d) ! (?w - 1) = last (remdups_adj (take ?r ?d))"
        unfolding wlen using nonempty by (intro last_conv_nth[symmetric]) simp
      also have "\<dots> = last (take ?r ?d)" by simp
      finally show ?thesis using wlt0 by (simp add: cellRead_def)
    qed
    have wlt: "?w < length ?p" using "1.prems" rlt by simp
    show ?thesis
    proof (cases "?d ! ?r = last (take ?r ?d)")
      case True
      then have tick: "tp_tick st = st\<lparr>readPointer := ?r + 1\<rparr>"
        using rlt lastw by (simp add: tp_tick_def Let_def)
      have "remdups_adj (take (Suc ?r) ?d) = remdups_adj (take ?r ?d)"
        using True nonempty by (simp add: tk remdups_adj_snoc)
      then have "tp_pythonComplete (tp_play (tp_tick st)) \<and> \<not> tp_isPlaying (tp_play (tp_tick st)) \<and>
          tp_data (tp_play (tp_tick st)) = tp_data (tp_tick st) \<and>
          writePointer (tp_play (tp_tick st)) = length (remdups_adj (tp_data (tp_tick st))) \<and>
          take (writePointer (tp_play (tp_tick st))) (processedArray (tp_play (tp_tick st))) =
            map Some (remdups_adj (tp_data (tp_tick st)))"
        using "1.prems" rlt by (intro "1.IH") (simp_all add: tick)
      moreover have "tp_data (tp_tick st) = ?d" by (simp add: tick)
      ultimately show ?thesis unfolding play by (elim conjE, intro conjI) simp_all
    next
      case False
      then have tick: "tp_tick st = st\<lparr>processedArray := cellWrite ?p ?w (?d ! ?r),
                         writePointer := ?w + 1, readPointer := ?r + 1\<rparr>"
        using rlt lastw by (auto simp: tp_tick_def Let_def)
      have "remdups_adj (take (Suc ?r) ?d) = remdups_adj (take ?r ?d) @ [?d ! ?r]"
        using False nonempty by (auto simp: tk remdups_adj_snoc)
      then have "tp_pythonComplete (tp_play (tp_tick st)) \<and> \<not> tp_isPlaying (tp_play (tp_tick st)) \<and>
          tp_data (tp_play (tp_tick st)) = tp_data (tp_tick st) \<and>
          writePointer (tp_play (tp_tick st)) = length (remdups_adj (tp_data (tp_tick st))) \<and>
          take (writePointer (tp_play (tp_tick st))) (processedArray (tp_play (tp_tick st))) =
            map Some (remdups_adj (tp_data (tp_tick st)))"
        using "1.prems" rlt wlt cellWrite_take[OF wlt, of "?d ! ?r"]
        by (intro "1.IH") (simp_all add: tick)
      moreover have "tp_data (tp_tick st) = ?d" by (simp add: tick)
      ultimately show ?thesis unfolding play by (elim conjE, intro conjI) simp_all
    qed
  qed
qed

lemma sorted_removeAll_dropWhile:
  "sorted (x # xs) \<Longrightarrow> removeAll x xs = dropWhile (\<lambda>y. y = x) xs"
proof (induction xs)
  case Nil
  then show ?case by simp
next
  case (Cons a xs)
  show ?case
  proof (cases "a = x")
    case True
    then show ?thesis using Cons by simp
  next
    case False
    then have "x \<notin> set (a # xs)" using Cons.prems by auto
    then have "removeAll x (a # xs) = a # xs" by (rule removeAll_id)
    then show ?thesis using False by simp
  qed
qed

lemma sorted_removeAll: "sorted xs \<Longrightarrow> sorted (removeAll x xs)"
  by (induction xs) auto

lemma remdups_adj_distinctValues: "sorted xs \<Longrightarrow> remdups_adj xs = distinctValues xs"
proof (induction xs rule: distinctValues.induct)
  case 1
  then show ?case by simp
next
  case (2 x xs)
  have "sorted (removeAll x xs)" using "2.prems" by (simp add: sorted_removeAll)
  then have "remdups_adj (removeAll x xs) = distinctValues (removeAll x xs)" by (rule "2.IH")
  then show ?case using sorted_removeAll_dropWhile[OF "2.prems"] by (simp add: remdups_adj_Cons')
qed

lemma distinctValues_set: "set (distinctValues xs) = set xs"
  by (induction xs rule: distinctValues.induct) auto

lemma distinctValues_distinct: "distinct (distinctValues xs)"
  by (induction xs rule: distinctValues.induct) (auto simp: distinctValues_set)

lemma length_distinctValues: "length (distinctValues xs) = card (set xs)"
  using distinct_card[OF distinctValues_distinct, of xs] by (simp add: distinctValues_set)

text \<open>
  From the state that the initialising effect establishes (read and write pointer at 1,
  \<open>processedArray = [data[0], 0, ..., 0]\<close>), that is on the first run after mounting
  or after Set Data, the loop on a non-empty sorted array ends with the write pointer
  equal to the number of distinct values and with the distinct values, in
  first-occurrence order, in the first \<open>writePointer\<close> cells.
\<close>

lemma dedup_from_initialised_state:
  assumes "sorted d" "d \<noteq> []"
  shows "tp_pythonComplete (tp_play (tp_start d)) \<and>
         writePointer (tp_play (tp_start d)) = card (set d) \<and>
         take (writePointer (tp_play (tp_start d))) (processedArray (tp_play (tp_start d))) =
           map Some (distinctValues d)"
proof -
  obtain x xs where d: "d = x # xs" using assms(2) by (cases d) auto
  have "tp_pythonComplete (tp_play (tp_start d)) \<and> \<not> tp_isPlaying (tp_play (tp_start d)) \<and>
        tp_data (tp_play (tp_start d)) = tp_data (tp_start d) \<and>
        writePointer (tp_play (tp_start d)) = length (remdups_adj (tp_data (tp_start d))) \<and>
        take (writePointer (tp_play (tp_start d))) (processedArray (tp_play (tp_start d))) =
          map Some (remdups_adj (tp_data (tp_start d)))"
    by (rule tp_play_remdups_adj) (simp_all add: tp_start_def initProcessed_def d)
  moreover have "tp_data (tp_start d) = d" by (simp add: tp_start_def initProcessed_def)
  ultimately have r: "tp_pythonComplete (tp_play (tp_start d))"
      "writePointer (tp_play (tp_start d)) = length (remdups_adj d)"
      "take (writePointer (tp_play (tp_start d))) (processedArray (tp_play (tp_start d))) =
         map Some (remdups_adj d)"
    by auto
  have e: "remdups_adj d = distinctValues d" by (rule remdups_adj_distinctValues[OF assms(1)])
  show ?thesis using r length_distinctValues[of d] unfolding e by simp
qed

lemma first_run_sample:
  "tp_play (tp_start SAMPLE_DATA) =
     \<lparr>tp_inputStr = [], tp_data = SAMPLE_DATA, tp_isPlaying = False, tp_pythonComplete = True,
      readPointer = 9, writePointer = 5,
      processedArray = [Some 1001, Some 1002, Some 1003, Some 1004, Some 1005,
                        Some 0, Some 0, Some 0, Some 0],
      tp_snowflakeTriggered = False, lagComparison = None\<rparr>"
  by (simp add: tp_start_def initProcessed_def tp_play.simps tp_tick_def SAMPLE_DATA_def
        cellRead_def cellWrite_def Let_def)

lemma after_reset_and_play:
  "tp_clickPlay (tp_reset (tp_play (tp_start SAMPLE_DATA))) =
     \<lparr>tp_inputStr = [], tp_data = SAMPLE_DATA, tp_isPlaying = True, tp_pythonComplete = False,
      readPointer = 1, writePointer = 1, processedArray = [],
      tp_snowflakeTriggered = False, lagComparison = None\<rparr>"
  by (simp add: first_run_sample tp_reset_def tp_clickPlay_def)

text \<open>
  Claim C2 states that for every sorted array the deduplication loop ends with the write
  pointer equal to the number of distinct values and with the distinct values in the
  first \<open>writePointer\<close> cells of the processed array.  The code does not keep that on
  a run started after the Reset button.  \<open>reset\<close> sets \<open>processedArray\<close> to
  \<open>[]\<close> and leaves \<open>data\<close> unchanged, so the effect that writes
  \<open>[data[0], 0, ..., 0]\<close> does not run again; on the next run
  \<open>processedArray[writePointer - 1]\<close> is \<open>undefined\<close>, \<open>data[1]\<close> is copied
  although it equals \<open>data[0]\<close>, and cell 0 stays empty.  On the module's own sorted
  sample data (5 distinct values) the first run ends with the write pointer at 5, and
  the run after Reset and Play ends with the write pointer at 6 and the cells
  \<open>[empty, 1001, 1002, 1003, 1004, 1005]\<close>.
\<close>

theorem reset_then_run_overcounts:
  "sorted SAMPLE_DATA \<and> card (set SAMPLE_DATA) = 5 \<and>
   writePointer (tp_play (tp_start SAMPLE_DATA)) = 5 \<and>
   writePointer (tp_play (tp_clickPlay (tp_reset (tp_play (tp_start SAMPLE_DATA))))) = 6 \<and>
   processedArray (tp_play (tp_clickPlay (tp_reset (tp_play (tp_start SAMPLE_DATA))))) =
     [None, Some 1001, Some 1002, Some 1003, Some 1004, Some 1005]"
proof -
  have a: "sorted SAMPLE_DATA" "card (set SAMPLE_DATA) = 5" by (simp_all add: SAMPLE_DATA_def)
  have b: "writePointer (tp_play (tp_start SAMPLE_DATA)) = 5" by (simp add: first_run_sample)
  have c: "tp_play (tp_clickPlay (tp_reset (tp_play (tp_start SAMPLE_DATA)))) =
     \<lparr>tp_inputStr = [], tp_data = SAMPLE_DATA, tp_isPlaying = False, tp_pythonComplete = True,
      readPointer = 9, writePointer = 6,
      processedArray = [None, Some 1001, Some 1002, Some 1003, Some 1004, Some 1005],
      tp_snowflakeTriggered = False, lagComparison = None\<rparr>"
    unfolding after_reset_and_play
    by (simp add: tp_play.simps tp_tick_def SAMPLE_DATA_def cellRead_def cellWrite_def Let_def)
  show ?thesis using a b by (simp add: c)
qed

section \<open>Heap\<close>

lemma parentIdx_less: "0 < i \<Longrightarrow> parentIdx i < i"
  by (simp add: parentIdx_def)

lemma bubbleUp_length: "length (bubbleUp h k) = length h"
  by (induction h k rule: bubbleUp.induct) (simp add: bubbleUp.simps)

lemma heapExcept_swap:
  assumes ex: "heapExcept h k" and k: "0 < k" "k < length h"
    and gt: "priorityValue (h ! k) > priorityValue (h ! parentIdx k)"
  shows "heapExcept (h[k := h ! parentIdx k, parentIdx k := h ! k]) (parentIdx k)"
proof -
  let ?p = "parentIdx k"
  let ?h' = "h[k := h ! ?p, ?p := h ! k]"
  let ?v = "\<lambda>i. priorityValue (h ! i)"
  have pk: "?p < k" using k by (simp add: parentIdx_less)
  have up: "\<And>i. 0 < i \<Longrightarrow> i < length h \<Longrightarrow> i \<noteq> k \<Longrightarrow> ?v (parentIdx i) \<ge> ?v i"
    using ex by (simp add: heapExcept_def)
  have gp: "\<And>i. 0 < i \<Longrightarrow> i < length h \<Longrightarrow> parentIdx i = k \<Longrightarrow> ?v (parentIdx k) \<ge> ?v i"
    using ex k by (simp add: heapExcept_def)
  have nth': "\<And>i. i < length h \<Longrightarrow>
      ?h' ! i = (if i = ?p then h ! k else if i = k then h ! ?p else h ! i)"
    using k pk by (simp add: nth_list_update)
  have part1: "priorityValue (?h' ! parentIdx i) \<ge> priorityValue (?h' ! i)"
    if i: "0 < i" "i < length h" "i \<noteq> ?p" for i
  proof -
    have pi: "parentIdx i < length h" using i parentIdx_less[of i] by simp
    show ?thesis
    proof (cases "i = k")
      case True
      then show ?thesis using gt nth'[of k] nth'[of ?p] k pk by simp
    next
      case False
      note ik = this
      have hi: "?h' ! i = h ! i" using nth'[OF i(2)] i(3) ik by simp
      consider (sib) "parentIdx i = ?p" | (child) "parentIdx i = k" | (other) "parentIdx i \<noteq> ?p" "parentIdx i \<noteq> k"
        by blast
      then show ?thesis
      proof cases
        case sib
        have "?v ?p \<ge> ?v i" using up[OF i(1,2) ik] sib by simp
        then show ?thesis using gt hi sib nth'[of ?p] pk k by simp
      next
        case child
        have "?v ?p \<ge> ?v i" using gp[OF i(1,2) child] .
        then show ?thesis using hi child nth'[of k] k pk by simp
      next
        case other
        then show ?thesis using up[OF i(1,2) ik] hi nth'[OF pi] by simp
      qed
    qed
  qed
  have part2: "priorityValue (?h' ! parentIdx ?p) \<ge> priorityValue (?h' ! i)"
    if i: "0 < i" "i < length h" "parentIdx i = ?p" "0 < ?p" for i
  proof -
    have ppl: "parentIdx ?p < ?p" using i(4) by (rule parentIdx_less)
    have pp: "?h' ! parentIdx ?p = h ! parentIdx ?p"
      using nth'[of "parentIdx ?p"] ppl pk k by simp
    have ip: "i \<noteq> ?p" using i(1,3) parentIdx_less[of i] by auto
    have base: "?v (parentIdx ?p) \<ge> ?v ?p" using up[of ?p] i(4) pk k by simp
    show ?thesis
    proof (cases "i = k")
      case True
      then show ?thesis using base pp nth'[of k] k pk by simp
    next
      case False
      have "?v ?p \<ge> ?v i" using up[OF i(1,2) False] i(3) by simp
      then show ?thesis using base pp nth'[OF i(2)] ip False by simp
    qed
  qed
  show ?thesis unfolding heapExcept_def using part1 part2 by simp
qed

lemma bubbleUp_heapInv:
  "k < length h \<Longrightarrow> heapExcept h k \<Longrightarrow> heapInv (bubbleUp h k)"
proof (induction h k rule: bubbleUp.induct)
  case (1 h k)
  show ?case
  proof (cases "k = 0")
    case True
    then have "bubbleUp h k = h" by (simp add: bubbleUp.simps[of h 0])
    then show ?thesis using "1.prems" True by (simp add: heapInv_def heapExcept_def)
  next
    case False
    note k0 = this
    show ?thesis
    proof (cases "priorityValue (h ! k) > priorityValue (h ! parentIdx k)")
      case True
      let ?h' = "h[k := h ! parentIdx k, parentIdx k := h ! k]"
      have "heapExcept ?h' (parentIdx k)"
        using "1.prems" k0 True by (intro heapExcept_swap) auto
      moreover have "parentIdx k < length ?h'"
        using "1.prems" k0 parentIdx_less[of k] by simp
      ultimately have "heapInv (bubbleUp ?h' (parentIdx k))"
        using "1.IH"[OF k0 True] by simp
      then show ?thesis using k0 True by (simp add: bubbleUp.simps[of h k])
    next
      case False
      have "heapInv h" unfolding heapInv_def
      proof (intro allI impI)
        fix i assume i: "0 < i \<and> i < length h"
        show "priorityValue (h ! parentIdx i) \<ge> priorityValue (h ! i)"
        proof (cases "i = k")
          case True
          then show ?thesis using False by simp
        next
          case ne: False
          then show ?thesis using "1.prems"(2) i by (simp add: heapExcept_def)
        qed
      qed
      then show ?thesis using k0 False by (simp add: bubbleUp.simps[of h k])
    qed
  qed
qed

lemma heapExcept_append:
  assumes "heapInv h"
  shows "heapExcept (h @ [j]) (length h)"
proof -
  have "\<And>i. 0 < i \<Longrightarrow> i < length h \<Longrightarrow> parentIdx i < length h"
    using parentIdx_less by (meson less_trans)
  then have part1: "\<forall>i. 0 < i \<and> i < length (h @ [j]) \<and> i \<noteq> length h \<longrightarrow>
      priorityValue ((h @ [j]) ! parentIdx i) \<ge> priorityValue ((h @ [j]) ! i)"
    using assms by (auto simp: heapInv_def nth_append)
  have part2: "\<forall>i. 0 < i \<and> i < length (h @ [j]) \<and> parentIdx i = length h \<and> 0 < length h \<longrightarrow>
      priorityValue ((h @ [j]) ! parentIdx (length h)) \<ge> priorityValue ((h @ [j]) ! i)"
  proof (intro allI impI)
    fix i assume a: "0 < i \<and> i < length (h @ [j]) \<and> parentIdx i = length h \<and> 0 < length h"
    from a have "parentIdx i < i" by (intro parentIdx_less) simp
    with a have False by simp
    then show "priorityValue ((h @ [j]) ! parentIdx (length h)) \<ge> priorityValue ((h @ [j]) ! i)" ..
  qed
  show ?thesis unfolding heapExcept_def using part1 part2 by blast
qed

lemma hp_addJob_heapInv: "heapInv (heap st) \<Longrightarrow> heapInv (heap (hp_addJob st p))"
  using heapExcept_append[of "heap st"]
  by (simp add: hp_addJob_def Let_def bubbleUp_heapInv)

lemma foldl_addJob_heapInv: "heapInv (heap st) \<Longrightarrow> heapInv (heap (foldl hp_addJob st ps))"
  by (induction ps arbitrary: st) (simp_all add: hp_addJob_heapInv)

lemma foldl_addJob_length: "length (heap (foldl hp_addJob st ps)) = length (heap st) + length ps"
  by (induction ps arbitrary: st) (simp_all add: hp_addJob_def Let_def bubbleUp_length)

text \<open>
  Claim C4.  Starting from the empty heap, after any sequence of \<open>addJob\<close> insertions,
  each with its bubble-up loop run to completion and no pop in between, the heap holds
  one job per insertion and every index \<open>i \<ge> 1\<close> satisfies
  \<open>heap[floor((i - 1) / 2)].priorityValue \<ge> heap[i].priorityValue\<close>.
\<close>

theorem addJob_heap_invariant:
  "length (heap (foldl hp_addJob hp_initial ps)) = length ps \<and>
   (\<forall>i. 1 \<le> i \<and> i < length (heap (foldl hp_addJob hp_initial ps)) \<longrightarrow>
      priorityValue (heap (foldl hp_addJob hp_initial ps) ! ((i - 1) div 2))
        \<ge> priorityValue (heap (foldl hp_addJob hp_initial ps) ! i))"
proof -
  have "heapInv (heap hp_initial)" by (simp add: heapInv_def hp_initial_def)
  then have "heapInv (heap (foldl hp_addJob hp_initial ps))" by (rule foldl_addJob_heapInv)
  then show ?thesis using foldl_addJob_length[of hp_initial ps]
    by (simp add: heapInv_def parentIdx_def hp_initial_def)
qed


theorem addJob_heap_invariant_witness:
  "(1::nat) \<le> 3 \<and> 3 < length (heap (foldl hp_addJob hp_initial [Low, High, Critical, High])) \<and>
   priorityValue (heap (foldl hp_addJob hp_initial [Low, High, Critical, High]) ! ((3 - 1) div 2))
     \<ge> priorityValue (heap (foldl hp_addJob hp_initial [Low, High, Critical, High]) ! 3)"
proof -
  let ?h = "heap (foldl hp_addJob hp_initial [Low, High, Critical, High])"
  have len: "length ?h = 4"
    using addJob_heap_invariant[of "[Low, High, Critical, High]"] by simp
  have "1 \<le> (3::nat) \<and> 3 < length ?h" using len by simp
  moreover from this have "priorityValue (?h ! ((3 - 1) div 2)) \<ge> priorityValue (?h ! 3)"
    using addJob_heap_invariant[of "[Low, High, Critical, High]", THEN conjunct2, rule_format, of 3]
    by blast
  ultimately show ?thesis by blast
qed

lemma popJob_nth:
  assumes "0 < i" "i < length (heap st) - 1"
  shows "heap (popJob st) ! i = heap st ! i"
proof -
  have "1 < length (heap st)" using assms by simp
  then have "heap (popJob st) = butlast ((heap st)[0 := heap st ! (length (heap st) - 1)])"
    by (simp add: popJob_def)
  then show ?thesis using assms by (simp add: nth_butlast)
qed

lemma popJob_root:
  assumes "1 < length (heap st)"
  shows "heap (popJob st) ! 0 = last (heap st)"
proof -
  have ne: "heap st \<noteq> []" using assms by auto
  have "heap (popJob st) = butlast ((heap st)[0 := heap st ! (length (heap st) - 1)])"
    using assms by (simp add: popJob_def)
  then show ?thesis using assms ne by (simp add: nth_butlast last_conv_nth)
qed

lemma popJob_length: "length (heap (popJob st)) = length (heap st) - 1"
  by (simp add: popJob_def)

lemma popJob_mset:
  assumes "heap st \<noteq> []"
  shows "mset (heap (popJob st)) = mset (heap st) - {#hd (heap st)#}"
proof -
  obtain r rest where h: "heap st = r # rest" using assms by (cases "heap st") auto
  show ?thesis
  proof (cases rest)
    case Nil
    then show ?thesis using h by (simp add: popJob_def)
  next
    case (Cons c cs)
    then have ne: "rest \<noteq> []" by simp
    have "heap (popJob st) = last rest # butlast rest"
      using h ne by (simp add: popJob_def last_conv_nth)
    then have "mset (heap (popJob st)) = mset (butlast rest @ [last rest])" by simp
    then show ?thesis using h ne by simp
  qed
qed

lemma pop_breaks_order:
  "heapInv (heap (foldl hp_addJob hp_initial [Critical, Critical, Low])) \<and>
   \<not> heapInv (heap (popJob (foldl hp_addJob hp_initial [Critical, Critical, Low])))"
proof -
  have h: "map priorityValue (heap (popJob (foldl hp_addJob hp_initial [Critical, Critical, Low]))) = [1, 3]"
    by (simp add: hp_addJob_def hp_initial_def bubbleUp.simps parentIdx_def Let_def popJob_def)
  let ?h = "heap (popJob (foldl hp_addJob hp_initial [Critical, Critical, Low]))"
  have len: "length ?h = 2" using arg_cong[OF h, of length] by simp
  have "priorityValue (?h ! 0) = 1" "priorityValue (?h ! 1) = 3"
    using arg_cong[OF h, of "\<lambda>l. l ! 0"] arg_cong[OF h, of "\<lambda>l. l ! 1"] len by simp_all
  then have "\<not> heapInv ?h"
    unfolding heapInv_def using len by (auto simp: parentIdx_def intro!: exI[of _ 1])
  moreover have "heapInv (heap (foldl hp_addJob hp_initial [Critical, Critical, Low]))"
    by (rule foldl_addJob_heapInv) (simp add: heapInv_def hp_initial_def)
  ultimately show ?thesis by simp
qed

text \<open>
  Claim C9.  For every non-empty heap, \<open>popJob\<close> shrinks the array by one, removes
  exactly the element at index 0, puts the former last element at index 0 (when one
  remains), and leaves every other remaining cell and the job counter as they were.
  Nothing is sifted down: the heap built
  by inserting Critical, Critical, Low satisfies the max-heap invariant and loses it
  with one \<open>popJob\<close>.
\<close>

theorem popJob_root_removal:
  assumes "heap st \<noteq> []"
  shows "length (heap (popJob st)) = length (heap st) - 1 \<and>
         (1 < length (heap st) \<longrightarrow> heap (popJob st) ! 0 = last (heap st)) \<and>
         (\<forall>i. 0 < i \<and> i < length (heap st) - 1 \<longrightarrow> heap (popJob st) ! i = heap st ! i) \<and>
         mset (heap (popJob st)) = mset (heap st) - {#hd (heap st)#} \<and>
         hp_nextJobId (popJob st) = hp_nextJobId st \<and>
         heapInv (heap (foldl hp_addJob hp_initial [Critical, Critical, Low])) \<and>
         \<not> heapInv (heap (popJob (foldl hp_addJob hp_initial [Critical, Critical, Low])))"
proof -
  have "hp_nextJobId (popJob st) = hp_nextJobId st" by (simp add: popJob_def)
  then show ?thesis
    using popJob_length[of st] popJob_root[of st] popJob_nth[of _ st] popJob_mset[OF assms]
      pop_breaks_order by blast
qed

theorem popJob_root_removal_witness:
  "heap (foldl hp_addJob hp_initial [Critical, High, Low, Low]) \<noteq> [] \<and>
   map priorityValue (heap (foldl hp_addJob hp_initial [Critical, High, Low, Low])) = [3, 2, 1, 1] \<and>
   length (heap (popJob (foldl hp_addJob hp_initial [Critical, High, Low, Low]))) = 3 \<and>
   heap (popJob (foldl hp_addJob hp_initial [Critical, High, Low, Low])) ! 0 =
     last (heap (foldl hp_addJob hp_initial [Critical, High, Low, Low])) \<and>
   heap (popJob (foldl hp_addJob hp_initial [Critical, High, Low, Low])) ! 1 =
     heap (foldl hp_addJob hp_initial [Critical, High, Low, Low]) ! 1"
proof -
  let ?st = "foldl hp_addJob hp_initial [Critical, High, Low, Low]"
  have m: "map priorityValue (heap ?st) = [3, 2, 1, 1]"
    by (simp add: hp_addJob_def hp_initial_def bubbleUp.simps parentIdx_def Let_def)
  have len: "length (heap ?st) = 4" using arg_cong[OF m, of length] by simp
  then have ne: "heap ?st \<noteq> []" by auto
  have idx: "0 < (1::nat) \<and> 1 < length (heap ?st) - 1" using len by simp
  have "heap (popJob ?st) ! 1 = heap ?st ! 1"
    using popJob_root_removal[OF ne] idx by blast
  moreover have "heap (popJob ?st) ! 0 = last (heap ?st)"
    using popJob_root_removal[OF ne] len by simp
  moreover have "length (heap (popJob ?st)) = 3"
    using popJob_root_removal[OF ne] len by simp
  ultimately show ?thesis using ne m by blast
qed

section \<open>Free-text numeric entry\<close>

lemma parse_sample: "parseNumbers ''40, 30, 60'' = [40, 30, 60]"
  by (simp add: parseNumbers_def parseInt_def trim_def isWhiteSpace_def digitOf_def Let_def)

lemma parse_empty: "parseNumbers '''' = []"
  by (simp add: parseNumbers_def parseInt_def trim_def isWhiteSpace_def digitOf_def Let_def)

lemma parse_abc: "parseNumbers ''abc'' = []"
  by (simp add: parseNumbers_def parseInt_def trim_def isWhiteSpace_def digitOf_def Let_def)

lemma parseNumbers_map_filter:
  "parseNumbers s = List.map_filter (\<lambda>t. parseInt (trim t)) (splitComma s)"
  by (simp add: parseNumbers_def List.map_filter_def filter_map comp_def)

lemma sw_handleParse_reject:
  "parseNumbers (sw_inputStr st) = [] \<Longrightarrow>
   sw_handleParse st = (st, Some ''Please enter valid numbers'')"
  by (simp add: sw_handleParse_def)

lemma sw_handleParse_accept:
  "parseNumbers (sw_inputStr st) \<noteq> [] \<Longrightarrow>
   sw_data (fst (sw_handleParse st)) = parseNumbers (sw_inputStr st) \<and>
   snd (sw_handleParse st) = None"
  by (simp add: sw_handleParse_def sw_reset_def Let_def)

lemma tp_handleParse_reject:
  "parseNumbers (tp_inputStr st) = [] \<Longrightarrow>
   tp_handleParse st = (st, Some ''Please enter valid numbers'')"
  by (simp add: tp_handleParse_def)

lemma tp_handleParse_accept:
  "parseNumbers (tp_inputStr st) \<noteq> [] \<Longrightarrow>
   tp_data (fst (tp_handleParse st)) = sortAscending (parseNumbers (tp_inputStr st)) \<and>
   snd (tp_handleParse st) = None"
  by (simp add: tp_handleParse_def tp_reset_def initProcessed_def Let_def)

lemma sort_sample: "sortAscending [40, 30, 60] = [30, 40, 60]"
  by (simp add: sortAscending_def)

text \<open>
  Claim C6 (amended).  For every free-text input: the input is split on commas and the
  tokens for which \<open>parseInt\<close> gives \<open>NaN\<close> are dropped, the others kept in order.
  The text \<open>40, 30, 60\<close> parses to \<open>[40, 30, 60]\<close>; the sliding-window handler
  stores that list as its dataset and the two-pointers handler stores it sorted, as
  \<open>[30, 40, 60]\<close>.  The texts \<open>""\<close> and \<open>abc\<close> parse to the empty list, and on
  every input with an empty parse result both handlers raise the alert and leave the
  whole state, the dataset included, unchanged.
\<close>

theorem handleParse_behaviour:
  "parseNumbers s = List.map_filter (\<lambda>t. parseInt (trim t)) (splitComma s) \<and>
   parseNumbers ''40, 30, 60'' = [40, 30, 60] \<and>
   sw_data (fst (sw_handleParse (sw\<lparr>sw_inputStr := ''40, 30, 60''\<rparr>))) = [40, 30, 60] \<and>
   tp_data (fst (tp_handleParse (tp\<lparr>tp_inputStr := ''40, 30, 60''\<rparr>))) = [30, 40, 60] \<and>
   parseNumbers '''' = [] \<and> parseNumbers ''abc'' = [] \<and>
   (parseNumbers (sw_inputStr sw) = [] \<longrightarrow>
      sw_handleParse sw = (sw, Some ''Please enter valid numbers'')) \<and>
   (parseNumbers (tp_inputStr tp) = [] \<longrightarrow>
      tp_handleParse tp = (tp, Some ''Please enter valid numbers''))"
proof -
  have a: "sw_data (fst (sw_handleParse (sw\<lparr>sw_inputStr := ''40, 30, 60''\<rparr>))) = [40, 30, 60]"
    using sw_handleParse_accept[of "sw\<lparr>sw_inputStr := ''40, 30, 60''\<rparr>"]
    by (simp add: parse_sample)
  have b: "tp_data (fst (tp_handleParse (tp\<lparr>tp_inputStr := ''40, 30, 60''\<rparr>))) = [30, 40, 60]"
    using tp_handleParse_accept[of "tp\<lparr>tp_inputStr := ''40, 30, 60''\<rparr>"]
    by (simp add: parse_sample sort_sample)
  show ?thesis
    using a b parseNumbers_map_filter[of s] parse_sample parse_empty parse_abc
      sw_handleParse_reject[of sw] tp_handleParse_reject[of tp]
    by blast
qed

theorem handleParse_behaviour_witness:
  "parseNumbers (sw_inputStr ((sw_start [40, 30, 60])\<lparr>sw_inputStr := ''abc''\<rparr>)) = [] \<and>
   sw_handleParse ((sw_start [40, 30, 60])\<lparr>sw_inputStr := ''abc''\<rparr>) =
     ((sw_start [40, 30, 60])\<lparr>sw_inputStr := ''abc''\<rparr>, Some ''Please enter valid numbers'') \<and>
   parseNumbers (tp_inputStr ((tp_start SAMPLE_DATA)\<lparr>tp_inputStr := ''''\<rparr>)) = [] \<and>
   tp_handleParse ((tp_start SAMPLE_DATA)\<lparr>tp_inputStr := ''''\<rparr>) =
     ((tp_start SAMPLE_DATA)\<lparr>tp_inputStr := ''''\<rparr>, Some ''Please enter valid numbers'')"
proof -
  have e1: "parseNumbers (sw_inputStr ((sw_start [40, 30, 60])\<lparr>sw_inputStr := ''abc''\<rparr>)) = []"
    by (simp add: parse_abc)
  have e2: "parseNumbers (tp_inputStr ((tp_start SAMPLE_DATA)\<lparr>tp_inputStr := ''''\<rparr>)) = []"
    by (simp add: parse_empty)
  show ?thesis
    using e1 e2
      handleParse_behaviour[of "[]" "(sw_start [40, 30, 60])\<lparr>sw_inputStr := ''abc''\<rparr>"
        "(tp_start SAMPLE_DATA)\<lparr>tp_inputStr := ''''\<rparr>"]
    by blast
qed

text \<open>
  The claim as written gives the dataset \<open>[40, 30, 60]\<close> for both handlers; the
  two-pointers handler stores \<open>[30, 40, 60]\<close>.
\<close>

theorem handleParse_two_pointers_counterexample:
  "tp_data (fst (tp_handleParse ((tp_start SAMPLE_DATA)\<lparr>tp_inputStr := ''40, 30, 60''\<rparr>)))
     \<noteq> [40, 30, 60]"
proof -
  have "tp_data (fst (tp_handleParse ((tp_start SAMPLE_DATA)\<lparr>tp_inputStr := ''40, 30, 60''\<rparr>)))
          = [30, 40, 60]"
    using tp_handleParse_accept[of "(tp_start SAMPLE_DATA)\<lparr>tp_inputStr := ''40, 30, 60''\<rparr>"]
    by (simp add: parse_sample sort_sample)
  then show ?thesis by simp
qed

text \<open>
  Claim C10.  In the two-pointers module, for every input with at least one numeric
  token, \<open>handleParse\<close> raises no alert and stores the ascending sort of the parsed
  values: the stored dataset is sorted, is a permutation of the parsed values, and is
  not empty, which is what the deduplication loop requires of its input.
\<close>

theorem tp_handleParse_stores_sorted:
  assumes "parseNumbers (tp_inputStr st) \<noteq> []"
  shows "snd (tp_handleParse st) = None \<and>
         tp_data (fst (tp_handleParse st)) = sortAscending (parseNumbers (tp_inputStr st)) \<and>
         sorted (tp_data (fst (tp_handleParse st))) \<and>
         mset (tp_data (fst (tp_handleParse st))) = mset (parseNumbers (tp_inputStr st)) \<and>
         tp_data (fst (tp_handleParse st)) \<noteq> []"
proof -
  have d: "tp_data (fst (tp_handleParse st)) = sortAscending (parseNumbers (tp_inputStr st))"
    and n: "snd (tp_handleParse st) = None"
    using tp_handleParse_accept[OF assms] by simp_all
  have m: "mset (sortAscending (parseNumbers (tp_inputStr st))) = mset (parseNumbers (tp_inputStr st))"
    by (simp add: sortAscending_def)
  have "sortAscending (parseNumbers (tp_inputStr st)) \<noteq> []"
    using assms m by (metis mset_zero_iff)
  then show ?thesis using d n m by (simp add: sortAscending_def)
qed

theorem tp_handleParse_stores_sorted_witness:
  "parseNumbers (tp_inputStr ((tp_start SAMPLE_DATA)\<lparr>tp_inputStr := ''40, 30, 60''\<rparr>)) \<noteq> [] \<and>
   tp_data (fst (tp_handleParse ((tp_start SAMPLE_DATA)\<lparr>tp_inputStr := ''40, 30, 60''\<rparr>))) =
     [30, 40, 60]"
proof -
  have ne: "parseNumbers (tp_inputStr ((tp_start SAMPLE_DATA)\<lparr>tp_inputStr := ''40, 30, 60''\<rparr>)) \<noteq> []"
    by (simp add: parse_sample)
  show ?thesis
    using ne tp_handleParse_stores_sorted[OF ne] by (simp add: parse_sample sort_sample)
qed

section \<open>Stacks and queues\<close>

text \<open>Called from the render that is on screen, \<open>addJob\<close> refuses a full queue and
  otherwise appends exactly one job.\<close>

lemma sq_addJob_full:
  "length (jobs st) \<ge> MAX_QUEUE_SIZE \<Longrightarrow>
   sq_addJob st st = st\<lparr>backpressureAlert := True,
      executionLog := lastN 4 (executionLog st @ [LogBackpressure MAX_QUEUE_SIZE])\<rparr>"
  by (simp add: sq_addJob_def)

lemma sq_addJob_room:
  "length (jobs st) < MAX_QUEUE_SIZE \<Longrightarrow>
   jobs (sq_addJob st st) = jobs st @ [sq_nextJobId st] \<and>
   sq_nextJobId (sq_addJob st st) = sq_nextJobId st + 1 \<and>
   \<not> backpressureAlert (sq_addJob st st)"
  by (simp add: sq_addJob_def)

text \<open>The depth monitor sets the backpressure flag exactly when the queue holds at
  least \<open>BACKPRESSURE_THRESHOLD\<close> jobs, and does not touch the queue.\<close>

lemma monitorTick_backpressure:
  "backpressureAlert (monitorTick st) = (length (jobs st) \<ge> BACKPRESSURE_THRESHOLD) \<and>
   jobs (monitorTick st) = jobs st"
  by (simp add: monitorTick_def)

text \<open>As long as no producer simulation is started, the queue stays within
  \<open>MAX_QUEUE_SIZE\<close>.\<close>

lemma sq_step_bound_no_kafka:
  assumes "length (jobs (sq_current s)) \<le> MAX_QUEUE_SIZE" "producers s = []" "e \<noteq> ClickKafka"
  shows "length (jobs (sq_current (sq_step s e))) \<le> MAX_QUEUE_SIZE \<and> producers (sq_step s e) = []"
  using assms
  by (cases e) (auto simp: sq_addJob_def processJob_def sq_reset_def toggleMode_def monitorTick_def
                  MAX_QUEUE_SIZE_def)

lemma foldl_bound_no_kafka:
  "length (jobs (sq_current s)) \<le> MAX_QUEUE_SIZE \<Longrightarrow> producers s = [] \<Longrightarrow>
   ClickKafka \<notin> set es \<Longrightarrow>
   length (jobs (sq_current (foldl sq_step s es))) \<le> MAX_QUEUE_SIZE"
proof (induction es arbitrary: s)
  case Nil
  then show ?case by simp
next
  case (Cons e es)
  have "length (jobs (sq_current (sq_step s e))) \<le> MAX_QUEUE_SIZE \<and> producers (sq_step s e) = []"
    using Cons.prems by (intro sq_step_bound_no_kafka) auto
  then show ?case using Cons.IH[of "sq_step s e"] Cons.prems by simp
qed

lemma sq_run_bound_no_kafka:
  "ClickKafka \<notin> set es \<Longrightarrow> length (jobs (sq_current (sq_run es))) \<le> MAX_QUEUE_SIZE"
  unfolding sq_run_def by (rule foldl_bound_no_kafka) (simp_all add: sq_initial_def)

text \<open>
  Claim C8 states that in every reachable state the jobs list holds at most
  \<open>MAX_QUEUE_SIZE = 8\<close> entries.  The code does not keep that bound.  The producer
  interval of \<open>runKafkaSimulation\<close> calls the \<open>addJob\<close> of the render in which
  the simulation was started, so its guard tests the queue length of that render while
  \<open>setJobs\<close> appends to the current queue.  After seven clicks on Add Job, a click on
  Simulate Producer Bursts and two producer ticks with \<open>Math.random() > 0.5\<close>, the
  queue holds nine jobs.
\<close>

theorem kafka_burst_exceeds_max_queue:
  "length (jobs (sq_current (sq_run (replicate 7 ClickAddJob @
      [ClickKafka, KafkaTick 0 True, KafkaTick 0 True])))) = 9 \<and> MAX_QUEUE_SIZE = 8"
  by (simp add: sq_run_def sq_initial_def sq_addJob_def MAX_QUEUE_SIZE_def lastN_def numeral_eq_Suc)

section \<open>Graph traversal\<close>

lemma buildGraph_simps:
  "buildGraph ''A'' = Some [''B'', ''C'']" "buildGraph ''B'' = Some [''D'']"
  "buildGraph ''C'' = Some [''D'']" "buildGraph ''D'' = Some []"
  by (simp_all add: buildGraph_def DAG_NODES_def DAG_EDGES_def)

lemma dfsLoop_empty: "dfsLoop fuel graph [] vis order = Some order"
  by (cases fuel) simp_all

lemma runBFS_order: "runBFS (4 + k) = Some [''A'', ''B'', ''C'', ''D'']"
  by (simp add: runBFS_def buildGraph_simps neighborsOf_def numeral_eq_Suc)

lemma runDFS_order: "runDFS (4 + k) = Some [''A'', ''B'', ''D'', ''C'']"
  by (simp add: runDFS_def buildGraph_simps neighborsOf_def numeral_eq_Suc dfsLoop_empty)

lemma distances_from_A:
  "map (distanceFrom buildGraph ''A'') [''A'', ''B'', ''C'', ''D''] = [Some 0, Some 1, Some 1, Some 2]"
  by (simp add: distanceFrom_def DAG_NODES_def buildGraph_simps neighborsOf_def upt_rec numeral_eq_Suc)

lemma preorder_from_A: "preorder (length DAG_NODES) buildGraph [] ''A'' = [''A'', ''B'', ''D'', ''C'']"
  by (simp add: DAG_NODES_def buildGraph_simps neighborsOf_def numeral_eq_Suc)

text \<open>
  Claim C5.  On the fixed graph with source A, given fuel for at least four iterations,
  \<open>runBFS\<close> returns the visit order A, B, C, D, whose distances from A are 0, 1, 1, 2
  and so never decrease; \<open>runDFS\<close> returns A, B, D, C, which is the recursive
  pre-order over the adjacency lists; each order lists every node exactly once.
\<close>

theorem traversal_orders:
  "runBFS (4 + k) = Some [''A'', ''B'', ''C'', ''D''] \<and>
   map (distanceFrom buildGraph ''A'') [''A'', ''B'', ''C'', ''D''] = [Some 0, Some 1, Some 1, Some 2] \<and>
   sorted (map (\<lambda>v. the (distanceFrom buildGraph ''A'' v)) [''A'', ''B'', ''C'', ''D'']) \<and>
   runDFS (4 + k) = Some (preorder (length DAG_NODES) buildGraph [] ''A'') \<and>
   preorder (length DAG_NODES) buildGraph [] ''A'' = [''A'', ''B'', ''D'', ''C''] \<and>
   distinct [''A'', ''B'', ''C'', ''D''] \<and> set [''A'', ''B'', ''C'', ''D''] = set (map nodeId DAG_NODES) \<and>
   distinct [''A'', ''B'', ''D'', ''C''] \<and> set [''A'', ''B'', ''D'', ''C''] = set (map nodeId DAG_NODES)"
proof -
  have d: "map (distanceFrom buildGraph ''A'') [''A'', ''B'', ''C'', ''D'']
             = [Some 0, Some 1, Some 1, Some 2]"
    by (rule distances_from_A)
  then have s: "sorted (map (\<lambda>v. the (distanceFrom buildGraph ''A'' v)) [''A'', ''B'', ''C'', ''D''])"
    by simp
  have sets: "distinct [''A'', ''B'', ''C'', ''D'']" "set [''A'', ''B'', ''C'', ''D''] = set (map nodeId DAG_NODES)"
    "distinct [''A'', ''B'', ''D'', ''C'']" "set [''A'', ''B'', ''D'', ''C''] = set (map nodeId DAG_NODES)"
    by (auto simp: DAG_NODES_def)
  show ?thesis
    using runBFS_order[of k] runDFS_order[of k] preorder_from_A d s sets by simp
qed

end
